theory Spec2Isabelle
  imports Complex_Main
begin

section \<open>The rolling window of core/collection/rollingwindow.go\<close>

text \<open>
  The Go types are embedded as follows.
  \<^item> \<open>int\<close> and \<open>time.Duration\<close> (64-bit signed, nanoseconds) are HOL integers. Every
    duration the window stores is a reading of the process clock or the difference of two
    readings, and every index is bounded by the number of allocated buckets, so no
    operation of this file leaves the 64-bit range and the wrap-around is never taken.
  \<^item> Go's \<open>/\<close> and \<open>%\<close> on integers truncate towards zero and panic on a zero divisor;
    HOL's \<open>div\<close> and \<open>mod\<close> round down, so both get definitions of their own.
  \<^item> A panic is a value of type \<open>panic\<close>; a function that can panic returns
    \<open>panic + 'a\<close>.
  \<^item> \<open>float64\<close> is left as a type parameter with \<open>0\<close> and \<open>+\<close>; the scenarios
    instantiate it with the reals, their sums (1, 2 and 3) being exact in \<open>float64\<close>.
  \<^item> The lock is not modelled: calls are taken one after another, as the exclusive lock
    of \<open>Add\<close> and the shared lock of \<open>Reduce\<close> order them.
  \<^item> Each call of \<open>timex.Now()\<close> is an explicit argument, in the order of the calls.
\<close>

datatype panic =
  SizeMustBeGreaterThanZero
  | IntegerDivideByZero
  | IndexOutOfRange
  | MakeSliceLenOutOfRange

subsection \<open>Integer division of Go\<close>

definition go_quo :: "int \<Rightarrow> int \<Rightarrow> int" where
  "go_quo x y = sgn x * sgn y * (\<bar>x\<bar> div \<bar>y\<bar>)"

definition go_rem :: "int \<Rightarrow> int \<Rightarrow> int" where
  "go_rem x y = x - go_quo x y * y"

definition go_div :: "int \<Rightarrow> int \<Rightarrow> panic + int" where
  "go_div x y = (if y = 0 then Inl IntegerDivideByZero else Inr (go_quo x y))"

definition go_mod :: "int \<Rightarrow> int \<Rightarrow> panic + int" where
  "go_mod x y = (if y = 0 then Inl IntegerDivideByZero else Inr (go_rem x y))"

subsection \<open>Bucket\<close>

record 'a Bucket =
  Sum :: 'a
  Count :: int

definition Bucket_add :: "'a::plus Bucket \<Rightarrow> 'a \<Rightarrow> 'a Bucket" where
  "Bucket_add b v = b\<lparr>Sum := Sum b + v, Count := Count b + 1\<rparr>"

definition Bucket_reset :: "'a::zero Bucket \<Rightarrow> 'a Bucket" where
  "Bucket_reset b = b\<lparr>Sum := 0, Count := 0\<rparr>"

text \<open>\<open>new(Bucket)\<close>: the zero value.\<close>

definition new_Bucket :: "'a::zero Bucket" where
  "new_Bucket = \<lparr>Sum = 0, Count = 0\<rparr>"

subsection \<open>window\<close>

record 'a window =
  buckets :: "'a Bucket list"
  size_w :: int

definition newWindow :: "int \<Rightarrow> panic + 'a::zero window" where
  "newWindow size' =
     (if size' < 0 then Inl MakeSliceLenOutOfRange
      else Inr \<lparr>buckets = replicate (nat size') new_Bucket, size_w = size'\<rparr>)"

text \<open>
  \<open>w.buckets[offset % w.size].m()\<close> for a method \<open>m\<close> of the bucket: the modulus panics
  on a window of size 0, the index panics outside the slice.
\<close>

definition with_bucket ::
  "'a window \<Rightarrow> int \<Rightarrow> ('a Bucket \<Rightarrow> 'a Bucket) \<Rightarrow> panic + 'a window" where
  "with_bucket w offset m =
     (case go_mod offset (size_w w) of
        Inl e \<Rightarrow> Inl e
      | Inr k \<Rightarrow>
          if 0 \<le> k \<and> k < int (length (buckets w))
          then Inr (w\<lparr>buckets := (buckets w)[nat k := m (buckets w ! nat k)]\<rparr>)
          else Inl IndexOutOfRange)"

definition window_add :: "'a::plus window \<Rightarrow> int \<Rightarrow> 'a \<Rightarrow> panic + 'a window" where
  "window_add w offset v = with_bucket w offset (\<lambda>b. Bucket_add b v)"

definition window_resetBucket :: "'a::zero window \<Rightarrow> int \<Rightarrow> panic + 'a window" where
  "window_resetBucket w offset = with_bucket w offset Bucket_reset"

text \<open>
  The visitor \<open>fn func(b *Bucket)\<close> is a closure: it reads and may write the bucket it
  is handed, and reads and writes the state \<open>'s\<close> of its caller.
\<close>

type_synonym ('a, 's) visitor = "'a Bucket \<Rightarrow> 's \<Rightarrow> 'a Bucket \<times> 's"

definition visit_bucket ::
  "'a window \<Rightarrow> int \<Rightarrow> ('a, 's) visitor \<Rightarrow> 's \<Rightarrow> panic + ('a window \<times> 's)" where
  "visit_bucket w offset fn s =
     (case go_mod offset (size_w w) of
        Inl e \<Rightarrow> Inl e
      | Inr k \<Rightarrow>
          if 0 \<le> k \<and> k < int (length (buckets w))
          then (case fn (buckets w ! nat k) s of
                  (b', s') \<Rightarrow> Inr (w\<lparr>buckets := (buckets w)[nat k := b']\<rparr>, s'))
          else Inl IndexOutOfRange)"

text \<open>The loop of \<open>window.reduce\<close>, from the loop counter \<open>i\<close> on.\<close>

function window_reduce_from ::
  "int \<Rightarrow> 'a window \<Rightarrow> int \<Rightarrow> int \<Rightarrow> ('a, 's) visitor \<Rightarrow> 's \<Rightarrow> panic + ('a window \<times> 's)" where
  "window_reduce_from i w start count fn s =
     (if i < count
      then (case visit_bucket w (start + i) fn s of
              Inl e \<Rightarrow> Inl e
            | Inr (w', s') \<Rightarrow> window_reduce_from (i + 1) w' start count fn s')
      else Inr (w, s))"
  by pat_completeness auto
termination
  by (relation "measure (\<lambda>(i, w, start, count, fn, s). nat (count - i))") auto

declare window_reduce_from.simps [simp del]

definition window_reduce ::
  "'a window \<Rightarrow> int \<Rightarrow> int \<Rightarrow> ('a, 's) visitor \<Rightarrow> 's \<Rightarrow> panic + ('a window \<times> 's)" where
  "window_reduce w start count fn s = window_reduce_from 0 w start count fn s"

subsection \<open>RollingWindow\<close>

record 'a RollingWindow =
  size_rw :: int
  win :: "'a window"
  interval :: int
  offset :: int
  ignoreCurrent :: bool
  lastTime :: int

type_synonym 'a RollingWindowOption = "'a RollingWindow \<Rightarrow> 'a RollingWindow"

definition IgnoreCurrentBucket :: "'a RollingWindowOption" where
  "IgnoreCurrentBucket w = w\<lparr>ignoreCurrent := True\<rparr>"

text \<open>
  Modelled from the spec: \<open>timex.Since\<close> of core/timex, which is not part of the sources
  at hand. The spec gives \<open>elapsed = now - lastTime\<close>; \<open>now\<close> is the reading of the
  clock that the call takes.
\<close>

definition timex_Since :: "int \<Rightarrow> int \<Rightarrow> int" where
  "timex_Since now d = now - d"

definition NewRollingWindow ::
  "int \<Rightarrow> int \<Rightarrow> 'a RollingWindowOption list \<Rightarrow> int \<Rightarrow> panic + 'a::zero RollingWindow" where
  "NewRollingWindow size' interval' opts now =
     (if size' < 1 then Inl SizeMustBeGreaterThanZero
      else (case newWindow size' of
              Inl e \<Rightarrow> Inl e
            | Inr w0 \<Rightarrow>
                Inr (fold (\<lambda>opt w. opt w) opts
                      \<lparr>size_rw = size', win = w0, interval = interval', offset = 0,
                       ignoreCurrent = False, lastTime = now\<rparr>)))"

definition span_rw :: "'a RollingWindow \<Rightarrow> int \<Rightarrow> panic + int" where
  "span_rw rw now =
     (case go_div (timex_Since now (lastTime rw)) (interval rw) of
        Inl e \<Rightarrow> Inl e
      | Inr offset' \<Rightarrow>
          if 0 \<le> offset' \<and> offset' < size_rw rw then Inr offset' else Inr (size_rw rw))"

text \<open>The loop of \<open>updateOffset\<close> that resets the expired buckets, from \<open>i\<close> on.\<close>

function reset_expired_from ::
  "int \<Rightarrow> 'a::zero window \<Rightarrow> int \<Rightarrow> int \<Rightarrow> int \<Rightarrow> panic + 'a window" where
  "reset_expired_from i w offset' span' size' =
     (if i < span'
      then (case go_mod (offset' + i + 1) size' of
              Inl e \<Rightarrow> Inl e
            | Inr k \<Rightarrow>
                (case window_resetBucket w k of
                   Inl e \<Rightarrow> Inl e
                 | Inr w' \<Rightarrow> reset_expired_from (i + 1) w' offset' span' size'))
      else Inr w)"
  by pat_completeness auto
termination
  by (relation "measure (\<lambda>(i, w, offset', span', size'). nat (span' - i))") auto

declare reset_expired_from.simps [simp del]

text \<open>
  \<open>now1\<close> is the reading taken inside \<open>span\<close>, \<open>now2\<close> the one taken by \<open>updateOffset\<close>
  itself after the loop (not taken when the span is 0).
\<close>

definition updateOffset ::
  "'a::zero RollingWindow \<Rightarrow> int \<Rightarrow> int \<Rightarrow> panic + 'a RollingWindow" where
  "updateOffset rw now1 now2 =
     (case span_rw rw now1 of
        Inl e \<Rightarrow> Inl e
      | Inr span' \<Rightarrow>
          if span' \<le> 0 then Inr rw
          else (case reset_expired_from 0 (win rw) (offset rw) span' (size_rw rw) of
                  Inl e \<Rightarrow> Inl e
                | Inr w' \<Rightarrow>
                    (case go_mod (offset rw + span') (size_rw rw) of
                       Inl e \<Rightarrow> Inl e
                     | Inr offset' \<Rightarrow>
                         (case go_mod (now2 - lastTime rw) (interval rw) of
                            Inl e \<Rightarrow> Inl e
                          | Inr r \<Rightarrow>
                              Inr (rw\<lparr>win := w', offset := offset',
                                      lastTime := now2 - r\<rparr>)))))"

definition Add ::
  "'a::{zero,plus} RollingWindow \<Rightarrow> int \<Rightarrow> int \<Rightarrow> 'a \<Rightarrow> panic + 'a RollingWindow" where
  "Add rw now1 now2 v =
     (case updateOffset rw now1 now2 of
        Inl e \<Rightarrow> Inl e
      | Inr rw' \<Rightarrow>
          (case window_add (win rw') (offset rw') v of
             Inl e \<Rightarrow> Inl e
           | Inr w' \<Rightarrow> Inr (rw'\<lparr>win := w'\<rparr>)))"

definition Reduce ::
  "'a RollingWindow \<Rightarrow> int \<Rightarrow> ('a, 's) visitor \<Rightarrow> 's \<Rightarrow> panic + ('a RollingWindow \<times> 's)" where
  "Reduce rw now fn s =
     (case span_rw rw now of
        Inl e \<Rightarrow> Inl e
      | Inr span' \<Rightarrow>
          (let diff = (if span' = 0 \<and> ignoreCurrent rw then size_rw rw - 1
                       else size_rw rw - span')
           in if diff > 0
              then (case go_mod (offset rw + span' + 1) (size_rw rw) of
                      Inl e \<Rightarrow> Inl e
                    | Inr offset' \<Rightarrow>
                        (case window_reduce (win rw) offset' diff fn s of
                           Inl e \<Rightarrow> Inl e
                         | Inr (w', s') \<Rightarrow> Inr (rw\<lparr>win := w'\<rparr>, s')))
              else Inr (rw, s)))"

subsection \<open>Callers\<close>

text \<open>
  A caller of the window makes calls one after another; each \<open>Add\<close> comes with the
  clock readings it takes, each \<open>Reduce\<close> with its reading and its visitor. A panic ends
  the run.
\<close>

datatype ('a, 's) call =
  CallAdd int int 'a
  | CallReduce int "('a, 's) visitor"

fun run_call ::
  "'a::{zero,plus} RollingWindow \<times> 's \<Rightarrow> ('a, 's) call \<Rightarrow> panic + ('a RollingWindow \<times> 's)" where
  "run_call (rw, s) (CallAdd now1 now2 v) =
     (case Add rw now1 now2 v of Inl e \<Rightarrow> Inl e | Inr rw' \<Rightarrow> Inr (rw', s))"
| "run_call (rw, s) (CallReduce now fn) = Reduce rw now fn s"

fun run_calls ::
  "'a::{zero,plus} RollingWindow \<times> 's \<Rightarrow> ('a, 's) call list \<Rightarrow>
     panic + ('a RollingWindow \<times> 's)" where
  "run_calls st [] = Inr st"
| "run_calls st (c # cs) =
     (case run_call st c of Inl e \<Rightarrow> Inl e | Inr st' \<Rightarrow> run_calls st' cs)"

text \<open>Three visitors: one counts its invocations, one records the buckets it is handed,
  one adds up their sums and counts. None of them writes to the bucket.\<close>

definition count_visitor :: "('a, nat) visitor" where
  "count_visitor b n = (b, Suc n)"

definition collect_visitor :: "('a, 'a Bucket list) visitor" where
  "collect_visitor b bs = (b, bs @ [b])"

definition tally_visitor :: "('a::plus, 'a \<times> int) visitor" where
  "tally_visitor b t = (b, (fst t + Sum b, snd t + Count b))"

subsection \<open>Notions of the specification\<close>

text \<open>
  The span as section 4.3 of the specification words it, with \<open>floor(elapsed / interval)\<close>
  (\<open>div\<close> of HOL rounds down), to be compared with \<open>span_rw\<close>.
\<close>

definition span_spec :: "'a RollingWindow \<Rightarrow> int \<Rightarrow> int" where
  "span_spec rw now =
     (let elapsed = now - lastTime rw; rawSpan = elapsed div interval rw
      in if 0 \<le> rawSpan \<and> rawSpan < size_rw rw then rawSpan else size_rw rw)"

text \<open>
  The number of valid buckets of section 4.6, and the slots that a \<open>Reduce\<close> is to visit:
  \<open>n\<close> consecutive slots of a ring of \<open>size'\<close> slots from \<open>start\<close> on, in ring order.
\<close>

definition validCount :: "'a RollingWindow \<Rightarrow> int \<Rightarrow> int" where
  "validCount rw span' =
     (if span' = 0 \<and> ignoreCurrent rw then size_rw rw - 1 else size_rw rw - span')"

definition ring_slots :: "int \<Rightarrow> int \<Rightarrow> nat \<Rightarrow> nat list" where
  "ring_slots size' start n = map (\<lambda>i. nat ((start + int i) mod size')) [0..<n]"

definition valid_slots :: "'a RollingWindow \<Rightarrow> int \<Rightarrow> nat list" where
  "valid_slots rw span' =
     ring_slots (size_rw rw) ((offset rw + span' + 1) mod size_rw rw) (nat (validCount rw span'))"

text \<open>Applying the visitor once to the bucket in slot \<open>k\<close>, and to a list of slots in
  the order of the list.\<close>

definition visit_slot :: "('a, 's) visitor \<Rightarrow> nat \<Rightarrow> 'a window \<times> 's \<Rightarrow> 'a window \<times> 's" where
  "visit_slot fn k ws =
     (case ws of (w, s) \<Rightarrow>
        (case fn (buckets w ! k) s of (b', s') \<Rightarrow> (w\<lparr>buckets := (buckets w)[k := b']\<rparr>, s')))"

definition visit_slots ::
  "('a, 's) visitor \<Rightarrow> nat list \<Rightarrow> 'a window \<times> 's \<Rightarrow> 'a window \<times> 's" where
  "visit_slots fn ks ws = fold (visit_slot fn) ks ws"

definition visit_valid ::
  "('a, 's) visitor \<Rightarrow> nat list \<Rightarrow> 'a RollingWindow \<Rightarrow> 's \<Rightarrow> 'a RollingWindow \<times> 's" where
  "visit_valid fn ks rw s =
     (case visit_slots fn ks (win rw, s) of (w', s') \<Rightarrow> (rw\<lparr>win := w'\<rparr>, s'))"

text \<open>The slots that the loop of \<open>updateOffset\<close> resets from its counter \<open>i\<close> on.\<close>

definition reset_slots :: "int \<Rightarrow> int \<Rightarrow> int \<Rightarrow> int \<Rightarrow> nat set" where
  "reset_slots i offset' span' size' =
     {k. \<exists>j. i \<le> j \<and> j < span' \<and> int k = (offset' + j + 1) mod size'}"

subsection \<open>Well-formed windows\<close>

text \<open>
  What the constructor establishes and every call keeps: at least one bucket, as many
  buckets as the size says, and the cursor inside the ring.
\<close>

definition wf_window :: "'a window \<Rightarrow> bool" where
  "wf_window w = (1 \<le> size_w w \<and> int (length (buckets w)) = size_w w)"

definition wf_rw :: "'a RollingWindow \<Rightarrow> bool" where
  "wf_rw rw = (wf_window (win rw) \<and> size_w (win rw) = size_rw rw \<and>
               0 \<le> offset rw \<and> offset rw < size_rw rw)"

subsection \<open>The windows of the scenarios\<close>

text \<open>A window of 3 buckets of 10 ms (in nanoseconds) made at time 0, after \<open>Add(1.0)\<close>
  at time 0, and after \<open>Add(2.0)\<close> one interval later.\<close>

definition ms10 :: int where
  "ms10 = 10000000"

definition scenario_new :: "bool \<Rightarrow> real RollingWindow" where
  "scenario_new ic =
     \<lparr>size_rw = 3,
      win = \<lparr>buckets = [\<lparr>Sum = 0, Count = 0\<rparr>, \<lparr>Sum = 0, Count = 0\<rparr>, \<lparr>Sum = 0, Count = 0\<rparr>],
             size_w = 3\<rparr>,
      interval = ms10, offset = 0, ignoreCurrent = ic, lastTime = 0\<rparr>"

definition scenario_A :: "bool \<Rightarrow> real RollingWindow" where
  "scenario_A ic =
     \<lparr>size_rw = 3,
      win = \<lparr>buckets = [\<lparr>Sum = 1, Count = 1\<rparr>, \<lparr>Sum = 0, Count = 0\<rparr>, \<lparr>Sum = 0, Count = 0\<rparr>],
             size_w = 3\<rparr>,
      interval = ms10, offset = 0, ignoreCurrent = ic, lastTime = 0\<rparr>"

definition scenario_B :: "real RollingWindow" where
  "scenario_B =
     \<lparr>size_rw = 3,
      win = \<lparr>buckets = [\<lparr>Sum = 1, Count = 1\<rparr>, \<lparr>Sum = 2, Count = 1\<rparr>, \<lparr>Sum = 0, Count = 0\<rparr>],
             size_w = 3\<rparr>,
      interval = ms10, offset = 1, ignoreCurrent = False, lastTime = ms10\<rparr>"

text \<open>A window of 3 buckets of 10 time units made at time 100, for the readings of a
  clock that moves backward.\<close>

definition regress_rw :: "real RollingWindow" where
  "regress_rw =
     \<lparr>size_rw = 3,
      win = \<lparr>buckets = [\<lparr>Sum = 0, Count = 0\<rparr>, \<lparr>Sum = 0, Count = 0\<rparr>, \<lparr>Sum = 0, Count = 0\<rparr>],
             size_w = 3\<rparr>,
      interval = 10, offset = 0, ignoreCurrent = False, lastTime = 100\<rparr>"

text \<open>That window after \<open>Add(1.0)\<close> at time 100 and \<open>Add(2.0)\<close> at time 110: the
  cursor is at slot 1 and two buckets are written.\<close>

definition regress_B :: "real RollingWindow" where
  "regress_B =
     \<lparr>size_rw = 3,
      win = \<lparr>buckets = [\<lparr>Sum = 1, Count = 1\<rparr>, \<lparr>Sum = 2, Count = 1\<rparr>, \<lparr>Sum = 0, Count = 0\<rparr>],
             size_w = 3\<rparr>,
      interval = 10, offset = 1, ignoreCurrent = False, lastTime = 110\<rparr>"

subsection \<open>Stale buckets in a run\<close>

text \<open>
  The span that a call computes on entry, and whether some call of a run found a bucket
  stale, that is, computed a span above 0: the \<open>Add\<close> calls among them reset those
  buckets. This is the reading of "a bucket has become stale" of the specification's
  glossary.
\<close>

fun call_span :: "'a RollingWindow \<Rightarrow> ('a, 's) call \<Rightarrow> panic + int" where
  "call_span rw (CallAdd now1 now2 v) = span_rw rw now1"
| "call_span rw (CallReduce now fn) = span_rw rw now"

fun ever_stale :: "'a::{zero,plus} RollingWindow \<times> 's \<Rightarrow> ('a, 's) call list \<Rightarrow> bool" where
  "ever_stale st [] = False"
| "ever_stale st (c # cs) =
     ((case call_span (fst st) c of Inl e \<Rightarrow> False | Inr span' \<Rightarrow> 0 < span') \<or>
      (case run_call st c of Inl e \<Rightarrow> False | Inr st' \<Rightarrow> ever_stale st' cs))"

section \<open>Properties\<close>

subsection \<open>Division\<close>

lemma go_quo_nonneg: "0 \<le> x \<Longrightarrow> 0 < y \<Longrightarrow> go_quo x y = x div y"
  by (simp add: go_quo_def sgn_if)

lemma go_rem_nonneg: "0 \<le> x \<Longrightarrow> 0 < y \<Longrightarrow> go_rem x y = x mod y"
  by (simp add: go_rem_def go_quo_nonneg minus_div_mult_eq_mod)

lemma go_rem_dvd: "y dvd (x - go_rem x y)"
  by (simp add: go_rem_def)

lemma go_mod_nonneg: "0 \<le> x \<Longrightarrow> 0 < y \<Longrightarrow> go_mod x y = Inr (x mod y)"
  by (simp add: go_mod_def go_rem_nonneg)

lemma Bucket_reset_new: "Bucket_reset (b :: 'a::zero Bucket) = new_Bucket"
  by (cases b) (simp add: Bucket_reset_def new_Bucket_def)

lemma with_bucket_wf:
  assumes "wf_window w" "0 \<le> k"
  shows "with_bucket w k m =
    Inr (w\<lparr>buckets := (buckets w)[nat (k mod size_w w) := m (buckets w ! nat (k mod size_w w))]\<rparr>)"
  using assms by (simp add: with_bucket_def wf_window_def go_mod_nonneg)

lemma visit_bucket_wf:
  assumes "wf_window w" "0 \<le> k"
  shows "visit_bucket w k fn s =
    Inr (w\<lparr>buckets := (buckets w)[nat (k mod size_w w) := fst (fn (buckets w ! nat (k mod size_w w)) s)]\<rparr>,
         snd (fn (buckets w ! nat (k mod size_w w)) s))"
  using assms by (simp add: visit_bucket_def wf_window_def go_mod_nonneg split: prod.splits)

lemma wf_window_update:
  "wf_window w \<Longrightarrow> wf_window (w\<lparr>buckets := (buckets w)[k := b]\<rparr>)"
  by (simp add: wf_window_def)

lemma reset_slots_empty: "span' \<le> i \<Longrightarrow> reset_slots i offset' span' size' = {}"
  by (auto simp: reset_slots_def)

lemma reset_slots_step:
  "i < span' \<Longrightarrow> 0 < size' \<Longrightarrow> reset_slots i offset' span' size' =
     insert (nat ((offset' + i + 1) mod size')) (reset_slots (i + 1) offset' span' size')"
proof (rule set_eqI)
  fix k :: nat
  assume a: "i < span'" "0 < size'"
  have nn: "\<And>j. 0 \<le> (offset' + j + 1) mod size'" using a by simp
  show "k \<in> reset_slots i offset' span' size' \<longleftrightarrow>
        k \<in> insert (nat ((offset' + i + 1) mod size')) (reset_slots (i + 1) offset' span' size')"
  proof
    assume "k \<in> reset_slots i offset' span' size'"
    then obtain j where j: "i \<le> j" "j < span'" "int k = (offset' + j + 1) mod size'"
      by (auto simp: reset_slots_def)
    show "k \<in> insert (nat ((offset' + i + 1) mod size')) (reset_slots (i + 1) offset' span' size')"
    proof (cases "j = i")
      case True
      with j have "k = nat ((offset' + i + 1) mod size')" by simp
      then show ?thesis by simp
    next
      case False
      with j have "i + 1 \<le> j" by simp
      with j show ?thesis by (auto simp: reset_slots_def)
    qed
  next
    assume "k \<in> insert (nat ((offset' + i + 1) mod size')) (reset_slots (i + 1) offset' span' size')"
    then consider "k = nat ((offset' + i + 1) mod size')" | "k \<in> reset_slots (i + 1) offset' span' size'"
      by blast
    then show "k \<in> reset_slots i offset' span' size'"
    proof cases
      case 1
      then have "int k = (offset' + i + 1) mod size'" using nn by simp
      with a show ?thesis unfolding reset_slots_def by blast
    next
      case 2
      then obtain j where "i + 1 \<le> j" "j < span'" "int k = (offset' + j + 1) mod size'"
        by (auto simp: reset_slots_def)
      then have "i \<le> j \<and> j < span' \<and> int k = (offset' + j + 1) mod size'" by simp
      then show ?thesis unfolding reset_slots_def by blast
    qed
  qed
qed

lemma reset_expired_from_wf:
  "wf_window w \<Longrightarrow> size' = size_w w \<Longrightarrow> 0 \<le> offset' + i + 1 \<Longrightarrow>
   \<exists>w'. reset_expired_from i w offset' span' size' = Inr w' \<and> wf_window w' \<and>
        size_w w' = size_w w \<and>
        (\<forall>k<length (buckets w). buckets w' ! k =
            (if k \<in> reset_slots i offset' span' size' then new_Bucket else buckets w ! k))"
proof (induction i w offset' span' size' rule: reset_expired_from.induct)
  case (1 i w offset' span' size')
  show ?case
  proof (cases "i < span'")
    case False
    then show ?thesis
      using "1.prems" by (simp add: reset_expired_from.simps reset_slots_empty)
  next
    case True
    define k0 where "k0 = (offset' + i + 1) mod size'"
    define w1 where "w1 = w\<lparr>buckets := (buckets w)[nat k0 := new_Bucket]\<rparr>"
    have pos: "0 < size'" and len: "int (length (buckets w)) = size'"
      using "1.prems" by (simp_all add: wf_window_def)
    have k0: "0 \<le> k0" "k0 < size'" using pos by (simp_all add: k0_def)
    have gm: "go_mod (offset' + i + 1) size' = Inr k0"
      using "1.prems" pos by (simp add: go_mod_nonneg k0_def)
    have rb: "window_resetBucket w k0 = Inr w1"
      using "1.prems" k0
      by (simp add: window_resetBucket_def with_bucket_wf Bucket_reset_new w1_def)
    have wf1: "wf_window w1" "size' = size_w w1" "size_w w1 = size_w w"
      "length (buckets w1) = length (buckets w)"
      using "1.prems" by (simp_all add: w1_def wf_window_def)
    from "1.IH"[OF True gm rb wf1(1) wf1(2)] "1.prems"(3)
    obtain w' where w': "reset_expired_from (i + 1) w1 offset' span' size' = Inr w'"
      "wf_window w'" "size_w w' = size_w w1"
      "\<forall>k<length (buckets w1). buckets w' ! k =
          (if k \<in> reset_slots (i + 1) offset' span' size' then new_Bucket else buckets w1 ! k)"
      by auto
    have eq: "reset_expired_from i w offset' span' size' = Inr w'"
      using True gm rb w'(1) by (subst reset_expired_from.simps) simp
    have "\<forall>k<length (buckets w). buckets w' ! k =
          (if k \<in> reset_slots i offset' span' size' then new_Bucket else buckets w ! k)"
    proof (intro allI impI)
      fix k assume k: "k < length (buckets w)"
      then have "buckets w' ! k =
          (if k \<in> reset_slots (i + 1) offset' span' size' then new_Bucket else buckets w1 ! k)"
        using w'(4) wf1(4) by simp
      moreover have "buckets w1 ! k = (if k = nat k0 then new_Bucket else buckets w ! k)"
        using k by (simp add: w1_def nth_list_update)
      ultimately show "buckets w' ! k =
          (if k \<in> reset_slots i offset' span' size' then new_Bucket else buckets w ! k)"
        using reset_slots_step[OF True pos, of offset'] by (auto simp: k0_def)
    qed
    with eq w'(2,3) wf1(3) show ?thesis by simp
  qed
qed

lemma visit_bucket_slot:
  assumes "wf_window w" "0 \<le> k"
  shows "visit_bucket w k fn s = Inr (visit_slot fn (nat (k mod size_w w)) (w, s))"
  using assms by (simp add: visit_bucket_wf visit_slot_def split: prod.splits)

lemma visit_slot_wf:
  "wf_window w \<Longrightarrow> wf_window (fst (visit_slot fn k (w, s)))"
  by (simp add: visit_slot_def wf_window_def split: prod.splits)

lemma visit_slot_size:
  "size_w (fst (visit_slot fn k (w, s))) = size_w w"
  by (simp add: visit_slot_def split: prod.splits)

lemma ring_slots_Suc:
  "ring_slots size' start (Suc n) =
     nat (start mod size') # ring_slots size' (start + 1) n"
proof -
  have "[0..<Suc n] = 0 # map Suc [0..<n]"
    by (simp add: upt_conv_Cons map_Suc_upt del: upt_Suc)
  then show ?thesis
    by (simp add: ring_slots_def o_def add.commute add.left_commute del: upt_Suc)
qed

lemma window_reduce_from_slots:
  "wf_window w \<Longrightarrow> 0 \<le> start + i \<Longrightarrow>
   window_reduce_from i w start count fn s =
     Inr (visit_slots fn (ring_slots (size_w w) (start + i) (nat (count - i))) (w, s))"
proof (induction i w start count fn s rule: window_reduce_from.induct)
  case (1 i w start count fn s)
  show ?case
  proof (cases "i < count")
    case False
    then show ?thesis
      by (simp add: window_reduce_from.simps ring_slots_def visit_slots_def)
  next
    case True
    define k where "k = nat ((start + i) mod size_w w)"
    obtain w1 s1 where v: "visit_slot fn k (w, s) = (w1, s1)" by (cases "visit_slot fn k (w, s)")
    have vb: "visit_bucket w (start + i) fn s = Inr (w1, s1)"
      using "1.prems" v by (simp add: visit_bucket_slot k_def)
    have wf1: "wf_window w1" and sz1: "size_w w1 = size_w w"
      using visit_slot_wf[OF "1.prems"(1), of fn k s] visit_slot_size[of fn k w s] v by simp_all
    have nn: "0 \<le> start + (i + 1)" using "1.prems" by simp
    have n: "nat (count - i) = Suc (nat (count - (i + 1)))" using True by simp
    have "window_reduce_from i w start count fn s =
          window_reduce_from (i + 1) w1 start count fn s1"
      using True vb by (subst window_reduce_from.simps) simp
    also have "\<dots> = Inr (visit_slots fn (ring_slots (size_w w1) (start + (i + 1))
                          (nat (count - (i + 1)))) (w1, s1))"
      using "1.IH"[OF True vb refl wf1 nn] .
    also have "\<dots> = Inr (visit_slots fn (ring_slots (size_w w) (start + i) (nat (count - i))) (w, s))"
      unfolding n ring_slots_Suc sz1 using v
      by (simp add: visit_slots_def k_def add.assoc)
    finally show ?thesis .
  qed
qed

lemma span_rw_zero_interval: "interval rw = 0 \<Longrightarrow> span_rw rw now = Inl IntegerDivideByZero"
  by (simp add: span_rw_def go_div_def)

lemma span_rw_eq:
  "interval rw \<noteq> 0 \<Longrightarrow> span_rw rw now =
     Inr (let q = go_quo (now - lastTime rw) (interval rw)
          in if 0 \<le> q \<and> q < size_rw rw then q else size_rw rw)"
  by (simp add: span_rw_def go_div_def timex_Since_def Let_def)

lemma span_rw_range:
  "span_rw rw now = Inr sp \<Longrightarrow> 1 \<le> size_rw rw \<Longrightarrow> 0 \<le> sp \<and> sp \<le> size_rw rw"
  by (auto simp: span_rw_def go_div_def split: if_splits)

lemma span_rw_nonzero: "span_rw rw now = Inr sp \<Longrightarrow> interval rw \<noteq> 0"
  by (auto simp: span_rw_def go_div_def split: if_splits)

lemma wf_rw_size: "wf_rw rw \<Longrightarrow> 1 \<le> size_rw rw"
  by (simp add: wf_rw_def wf_window_def)

lemma updateOffset_stay:
  "span_rw rw now1 = Inr sp \<Longrightarrow> sp \<le> 0 \<Longrightarrow> updateOffset rw now1 now2 = Inr rw"
  by (simp add: updateOffset_def)

lemma updateOffset_advance:
  assumes wf: "wf_rw rw" and sp: "span_rw rw now1 = Inr sp" and pos: "0 < sp"
  shows "\<exists>w'. updateOffset rw now1 now2 =
            Inr (rw\<lparr>win := w', offset := (offset rw + sp) mod size_rw rw,
                    lastTime := now2 - go_rem (now2 - lastTime rw) (interval rw)\<rparr>) \<and>
          wf_window w' \<and> size_w w' = size_rw rw \<and>
          (\<forall>k<length (buckets (win rw)). buckets w' ! k =
             (if k \<in> reset_slots 0 (offset rw) sp (size_rw rw) then new_Bucket
              else buckets (win rw) ! k))"
proof -
  have w: "wf_window (win rw)" "size_rw rw = size_w (win rw)" "0 \<le> offset rw + 0 + 1"
    and sz: "0 < size_rw rw"
    using wf by (simp_all add: wf_rw_def wf_window_def)
  from reset_expired_from_wf[OF w, of sp]
  obtain w' where w': "reset_expired_from 0 (win rw) (offset rw) sp (size_rw rw) = Inr w'"
    "wf_window w'" "size_w w' = size_w (win rw)"
    "\<forall>k<length (buckets (win rw)). buckets w' ! k =
       (if k \<in> reset_slots 0 (offset rw) sp (size_rw rw) then new_Bucket
        else buckets (win rw) ! k)"
    by blast
  have gm: "go_mod (offset rw + sp) (size_rw rw) = Inr ((offset rw + sp) mod size_rw rw)"
    using wf pos sz by (simp add: go_mod_nonneg wf_rw_def)
  have iv: "go_mod (now2 - lastTime rw) (interval rw) =
            Inr (go_rem (now2 - lastTime rw) (interval rw))"
    using span_rw_nonzero[OF sp] by (simp add: go_mod_def)
  have "updateOffset rw now1 now2 =
          Inr (rw\<lparr>win := w', offset := (offset rw + sp) mod size_rw rw,
                  lastTime := now2 - go_rem (now2 - lastTime rw) (interval rw)\<rparr>)"
    using sp pos w'(1) gm iv by (simp add: updateOffset_def)
  with w'(2,3,4) w(2) show ?thesis by auto
qed

lemma updateOffset_inv:
  assumes wf: "wf_rw rw" and sp: "span_rw rw now1 = Inr sp"
  shows "\<exists>rw'. updateOffset rw now1 now2 = Inr rw' \<and> wf_rw rw' \<and>
           size_rw rw' = size_rw rw \<and> interval rw' = interval rw \<and>
           ignoreCurrent rw' = ignoreCurrent rw \<and>
           interval rw dvd (lastTime rw' - lastTime rw)"
proof (cases "0 < sp")
  case False
  then show ?thesis using updateOffset_stay[OF sp, of now2] wf by simp
next
  case True
  from updateOffset_advance[OF wf sp True, of now2] obtain w' where
    u: "updateOffset rw now1 now2 =
            Inr (rw\<lparr>win := w', offset := (offset rw + sp) mod size_rw rw,
                    lastTime := now2 - go_rem (now2 - lastTime rw) (interval rw)\<rparr>)"
    and w': "wf_window w'" "size_w w' = size_rw rw"
    by blast
  have sz: "0 < size_rw rw" using wf_rw_size[OF wf] by simp
  have "now2 - go_rem (now2 - lastTime rw) (interval rw) - lastTime rw =
        go_quo (now2 - lastTime rw) (interval rw) * interval rw"
    by (simp add: go_rem_def)
  then have "interval rw dvd (now2 - go_rem (now2 - lastTime rw) (interval rw) - lastTime rw)"
    by simp
  then show ?thesis using u w' sz by (simp add: wf_rw_def)
qed

lemma window_add_wf:
  assumes "wf_window w" "0 \<le> k" "k < size_w w"
  shows "window_add w k v =
           Inr (w\<lparr>buckets := (buckets w)[nat k := Bucket_add (buckets w ! nat k) v]\<rparr>)"
  using assms by (simp add: window_add_def with_bucket_wf)

lemma Add_inv:
  assumes wf: "wf_rw rw" and sp: "span_rw rw now1 = Inr sp"
  shows "\<exists>rw'. Add rw now1 now2 v = Inr rw' \<and> wf_rw rw' \<and>
           size_rw rw' = size_rw rw \<and> interval rw' = interval rw \<and>
           ignoreCurrent rw' = ignoreCurrent rw \<and>
           interval rw dvd (lastTime rw' - lastTime rw)"
proof -
  from updateOffset_inv[OF wf sp, of now2] obtain rw1 where
    u: "updateOffset rw now1 now2 = Inr rw1" and wf1: "wf_rw rw1"
    and keep: "size_rw rw1 = size_rw rw" "interval rw1 = interval rw"
      "ignoreCurrent rw1 = ignoreCurrent rw" "interval rw dvd (lastTime rw1 - lastTime rw)"
    by blast
  have a: "window_add (win rw1) (offset rw1) v =
      Inr ((win rw1)\<lparr>buckets := (buckets (win rw1))[nat (offset rw1) :=
             Bucket_add (buckets (win rw1) ! nat (offset rw1)) v]\<rparr>)"
    using wf1 by (intro window_add_wf) (simp_all add: wf_rw_def)
  show ?thesis
    using u a wf1 keep by (simp add: Add_def wf_rw_def wf_window_def)
qed

lemma visit_slots_Nil: "visit_slots fn [] ws = ws"
  by (simp add: visit_slots_def)

lemma visit_slots_Cons: "visit_slots fn (k # ks) ws = visit_slots fn ks (visit_slot fn k ws)"
  by (simp add: visit_slots_def)

lemma visit_slots_wf:
  "wf_window w \<Longrightarrow> wf_window (fst (visit_slots fn ks (w, s))) \<and>
     size_w (fst (visit_slots fn ks (w, s))) = size_w w"
proof (induction ks arbitrary: w s)
  case Nil
  then show ?case by (simp add: visit_slots_Nil)
next
  case (Cons k ks)
  obtain w1 s1 where v: "visit_slot fn k (w, s) = (w1, s1)" by (cases "visit_slot fn k (w, s)")
  have "wf_window w1" "size_w w1 = size_w w"
    using visit_slot_wf[OF Cons.prems, of fn k s] visit_slot_size[of fn k w s] v by simp_all
  with Cons.IH[of w1 s1] v show ?case by (simp add: visit_slots_Cons)
qed

lemma visit_slot_readonly:
  "(\<And>b t. fst (fn b t) = b) \<Longrightarrow> fst (visit_slot fn k (w, s)) = w"
proof -
  assume ro: "\<And>b t. fst (fn b t) = b"
  obtain b' s' where f: "fn (buckets w ! k) s = (b', s')" by (cases "fn (buckets w ! k) s")
  with ro[of "buckets w ! k" s] have "b' = buckets w ! k" by simp
  with f show ?thesis by (simp add: visit_slot_def)
qed

lemma visit_slots_count:
  "visit_slots count_visitor ks (w, n) = (w, n + length ks)"
proof (induction ks arbitrary: n)
  case Nil
  then show ?case by (simp add: visit_slots_Nil)
next
  case (Cons k ks)
  have "visit_slot count_visitor k (w, n) = (w, Suc n)"
    by (simp add: visit_slot_def count_visitor_def)
  with Cons.IH[of "Suc n"] show ?case by (simp add: visit_slots_Cons)
qed

lemma length_ring_slots: "length (ring_slots size' start n) = n"
  by (simp add: ring_slots_def)

lemma distinct_ring_slots:
  assumes "int n \<le> size'"
  shows "distinct (ring_slots size' start n)"
proof -
  have "inj_on (\<lambda>i. nat ((start + int i) mod size')) {0..<n}"
  proof (rule inj_onI)
    fix i j assume i: "i \<in> {0..<n}" and j: "j \<in> {0..<n}"
      and e: "nat ((start + int i) mod size') = nat ((start + int j) mod size')"
    have pos: "0 < size'" using i assms by auto
    then have "(start + int i) mod size' = (start + int j) mod size'"
      using e by (simp add: nat_eq_iff)
    then have "size' dvd (start + int i) - (start + int j)"
      by (simp add: mod_eq_dvd_iff)
    then have d: "size' dvd int i - int j" by simp
    have "\<bar>int i - int j\<bar> < size'" using i j assms by auto
    with d have "int i - int j = 0"
      using zdvd_not_zless[of "\<bar>int i - int j\<bar>" size'] by (cases "int i - int j = 0") auto
    then show "i = j" by simp
  qed
  then show ?thesis by (simp add: ring_slots_def distinct_map)
qed

lemma Reduce_slots:
  assumes wf: "wf_rw rw" and sp: "span_rw rw now = Inr sp"
  shows "Reduce rw now fn s = Inr (visit_valid fn (valid_slots rw sp) rw s)"
proof -
  have sz: "0 < size_rw rw" and w: "wf_window (win rw)" "size_w (win rw) = size_rw rw"
    and off: "0 \<le> offset rw"
    using wf by (simp_all add: wf_rw_def wf_window_def)
  have sp0: "0 \<le> sp" using span_rw_range[OF sp] sz by simp
  define start where "start = (offset rw + sp + 1) mod size_rw rw"
  have gm: "go_mod (offset rw + sp + 1) (size_rw rw) = Inr start"
    using off sp0 sz by (simp add: go_mod_nonneg start_def)
  have st: "0 \<le> start + 0" using sz by (simp add: start_def)
  show ?thesis
  proof (cases "0 < validCount rw sp")
    case True
    have "window_reduce (win rw) start (validCount rw sp) fn s =
          Inr (visit_slots fn (ring_slots (size_rw rw) start (nat (validCount rw sp))) (win rw, s))"
      using window_reduce_from_slots[OF w(1) st, of "validCount rw sp" fn s] w(2)
      by (simp add: window_reduce_def)
    then show ?thesis
      using sp True gm
      by (simp add: Reduce_def validCount_def[symmetric] valid_slots_def start_def visit_valid_def
          split: prod.splits)
  next
    case False
    then have "valid_slots rw sp = []" by (simp add: valid_slots_def ring_slots_def)
    then show ?thesis
      using sp False
      by (simp add: Reduce_def validCount_def[symmetric] visit_valid_def visit_slots_Nil)
  qed
qed

lemma visit_bucket_readonly:
  assumes ro: "\<And>b t. fst (fn b t) = b" and v: "visit_bucket w k fn s = Inr (w', s')"
  shows "w' = w"
proof -
  from v obtain j where j: "go_mod k (size_w w) = Inr j" "0 \<le> j" "j < int (length (buckets w))"
    by (auto simp: visit_bucket_def split: sum.splits if_splits)
  obtain b1 s1 where f: "fn (buckets w ! nat j) s = (b1, s1)" by (cases "fn (buckets w ! nat j) s")
  with ro[of "buckets w ! nat j" s] have "b1 = buckets w ! nat j" by simp
  with v j f show ?thesis by (simp add: visit_bucket_def)
qed

lemma window_reduce_from_readonly:
  "(\<And>b t. fst (fn b t) = b) \<Longrightarrow> window_reduce_from i w start count fn s = Inr (w', s') \<Longrightarrow>
   w' = w"
proof (induction i w start count fn s rule: window_reduce_from.induct)
  case (1 i w start count fn s)
  show ?case
  proof (cases "i < count")
    case False
    with "1.prems"(2) show ?thesis by (simp add: window_reduce_from.simps)
  next
    case True
    from "1.prems"(2) True obtain w1 s1 where
      vb: "visit_bucket w (start + i) fn s = Inr (w1, s1)"
      and rest: "window_reduce_from (i + 1) w1 start count fn s1 = Inr (w', s')"
      by (subst (asm) window_reduce_from.simps) (auto split: sum.splits)
    have "w1 = w" using visit_bucket_readonly[OF "1.prems"(1) vb] .
    moreover have "w' = w1" using "1.IH"[OF True vb refl "1.prems"(1) rest] .
    ultimately show ?thesis by simp
  qed
qed

lemma fold_IgnoreCurrentBucket:
  "set opts \<subseteq> {IgnoreCurrentBucket} \<Longrightarrow>
   fold (\<lambda>opt w. opt w) opts rw = (if opts = [] then rw else rw\<lparr>ignoreCurrent := True\<rparr>)"
proof (induction opts arbitrary: rw)
  case Nil
  then show ?case by simp
next
  case (Cons opt opts)
  then have o: "opt = IgnoreCurrentBucket" and os: "set opts \<subseteq> {IgnoreCurrentBucket}"
    by auto
  have "opt rw = rw\<lparr>ignoreCurrent := True\<rparr>"
    unfolding o by (simp add: IgnoreCurrentBucket_def)
  then have "fold (\<lambda>opt w. opt w) (opt # opts) rw =
             fold (\<lambda>opt w. opt w) opts (rw\<lparr>ignoreCurrent := True\<rparr>)"
    by simp
  also have "\<dots> = rw\<lparr>ignoreCurrent := True\<rparr>"
    using Cons.IH[OF os, of "rw\<lparr>ignoreCurrent := True\<rparr>"] by simp
  finally show ?case by simp
qed

lemma NewRollingWindow_eq:
  assumes "set opts \<subseteq> {IgnoreCurrentBucket}" "1 \<le> size'"
  shows "NewRollingWindow size' iv opts t0 =
     Inr \<lparr>size_rw = size',
          win = \<lparr>buckets = replicate (nat size') new_Bucket, size_w = size'\<rparr>,
          interval = iv, offset = 0, ignoreCurrent = (opts \<noteq> []), lastTime = t0\<rparr>"
  using assms by (simp add: NewRollingWindow_def newWindow_def fold_IgnoreCurrentBucket)

lemma NewRollingWindow_wf:
  assumes "set opts \<subseteq> {IgnoreCurrentBucket}" "NewRollingWindow size' iv opts t0 = Inr rw"
  shows "wf_rw rw \<and> size_rw rw = size' \<and> interval rw = iv \<and> lastTime rw = t0"
proof -
  have "1 \<le> size'" using assms(2) by (auto simp: NewRollingWindow_def split: if_splits)
  from NewRollingWindow_eq[OF assms(1) this, of iv t0] assms(2) this
  show ?thesis by (auto simp: wf_rw_def wf_window_def)
qed

lemma Reduce_inv:
  assumes wf: "wf_rw rw" and sp: "span_rw rw now = Inr sp"
  shows "\<exists>rw' s'. Reduce rw now fn s = Inr (rw', s') \<and> wf_rw rw' \<and>
           size_rw rw' = size_rw rw \<and> interval rw' = interval rw \<and>
           ignoreCurrent rw' = ignoreCurrent rw \<and> lastTime rw' = lastTime rw \<and>
           offset rw' = offset rw"
proof -
  obtain w' s' where v: "visit_slots fn (valid_slots rw sp) (win rw, s) = (w', s')"
    by (cases "visit_slots fn (valid_slots rw sp) (win rw, s)")
  have w: "wf_window (win rw)" using wf by (simp add: wf_rw_def)
  from visit_slots_wf[OF w, of fn "valid_slots rw sp" s] v
  have "wf_window w'" "size_w w' = size_w (win rw)" by simp_all
  then show ?thesis
    using Reduce_slots[OF wf sp, of fn s] v wf by (simp add: visit_valid_def wf_rw_def)
qed

lemma run_call_inv:
  assumes wf: "wf_rw rw" and r: "run_call (rw, s) c = Inr (rw', s')"
  shows "wf_rw rw' \<and> size_rw rw' = size_rw rw \<and> interval rw' = interval rw \<and>
         ignoreCurrent rw' = ignoreCurrent rw \<and> interval rw dvd (lastTime rw' - lastTime rw)"
proof (cases c)
  case (CallAdd now1 now2 v)
  with r have a: "Add rw now1 now2 v = Inr rw'" by (simp split: sum.splits)
  then obtain sp where sp: "span_rw rw now1 = Inr sp"
    by (cases "span_rw rw now1") (simp_all add: Add_def updateOffset_def)
  from Add_inv[OF wf sp, of now2 v] a show ?thesis by simp
next
  case (CallReduce now fn)
  with r have a: "Reduce rw now fn s = Inr (rw', s')" by simp
  then obtain sp where sp: "span_rw rw now = Inr sp"
    by (cases "span_rw rw now") (simp_all add: Reduce_def)
  from Reduce_inv[OF wf sp, of fn s] a show ?thesis by auto
qed

lemma run_calls_inv:
  "wf_rw rw \<Longrightarrow> run_calls (rw, s) cs = Inr (rw', s') \<Longrightarrow>
   wf_rw rw' \<and> size_rw rw' = size_rw rw \<and> interval rw' = interval rw \<and>
   ignoreCurrent rw' = ignoreCurrent rw \<and> interval rw dvd (lastTime rw' - lastTime rw)"
proof (induction cs arbitrary: rw s)
  case Nil
  then show ?case by simp
next
  case (Cons c cs)
  from Cons.prems(2) obtain rw1 s1 where
    c: "run_call (rw, s) c = Inr (rw1, s1)" and cs: "run_calls (rw1, s1) cs = Inr (rw', s')"
    by (cases "run_call (rw, s) c") auto
  note i1 = run_call_inv[OF Cons.prems(1) c]
  then have wf1: "wf_rw rw1" by simp
  note i2 = Cons.IH[OF wf1 cs]
  have "interval rw dvd (lastTime rw' - lastTime rw1) + (lastTime rw1 - lastTime rw)"
    using i1 i2 by (intro dvd_add) simp_all
  then have "interval rw dvd (lastTime rw' - lastTime rw)" by simp
  with i1 i2 show ?case by simp
qed

lemma run_calls_total:
  "wf_rw rw \<Longrightarrow> interval rw \<noteq> 0 \<Longrightarrow> \<exists>st. run_calls (rw, s) cs = Inr st"
proof (induction cs arbitrary: rw s)
  case Nil
  then show ?case by simp
next
  case (Cons c cs)
  have "\<exists>rw1 s1. run_call (rw, s) c = Inr (rw1, s1) \<and> wf_rw rw1 \<and> interval rw1 = interval rw"
  proof (cases c)
    case (CallAdd now1 now2 v)
    obtain sp where sp: "span_rw rw now1 = Inr sp" using span_rw_eq[OF Cons.prems(2)] by blast
    from Add_inv[OF Cons.prems(1) sp, of now2 v] CallAdd show ?thesis by auto
  next
    case (CallReduce now fn)
    obtain sp where sp: "span_rw rw now = Inr sp" using span_rw_eq[OF Cons.prems(2)] by blast
    from Reduce_inv[OF Cons.prems(1) sp, of fn s] CallReduce show ?thesis by auto
  qed
  then obtain rw1 s1 where c: "run_call (rw, s) c = Inr (rw1, s1)" "wf_rw rw1"
    "interval rw1 = interval rw" by blast
  with Cons.IH[of rw1 s1] Cons.prems(2) show ?case by simp
qed

lemma reset_slots_full:
  assumes "0 < size'" "k < nat size'"
  shows "k \<in> reset_slots 0 offset' size' size'"
proof -
  define j where "j = (int k - offset' - 1) mod size'"
  have "0 \<le> j" "j < size'" using assms by (simp_all add: j_def)
  moreover have "(offset' + j + 1) mod size' =
                 (offset' + 1 + (int k - offset' - 1) mod size') mod size'"
    by (simp add: j_def ac_simps)
  then have "(offset' + j + 1) mod size' = (offset' + 1 + (int k - offset' - 1)) mod size'"
    by (simp only: mod_add_right_eq)
  then have "(offset' + j + 1) mod size' = int k mod size'" by simp
  then have "int k = (offset' + j + 1) mod size'" using assms by simp
  ultimately show ?thesis unfolding reset_slots_def by blast
qed

section \<open>The claims\<close>

subsection \<open>C1: the value of span\<close>

text \<open>
  C1, as the specification states it: with \<open>elapsed = now - lastTime\<close> and
  \<open>rawSpan = floor(elapsed / interval)\<close>, \<open>span\<close> returns \<open>rawSpan\<close> if
  \<open>0 \<le> rawSpan < size\<close> and \<open>size\<close> otherwise, a negative \<open>elapsed\<close> included.
  This fails where the clock went back by less than one interval: with \<open>lastTime = 100\<close>,
  \<open>interval = 10\<close>, \<open>size = 3\<close> and \<open>now = 95\<close> the floor is \<open>-1\<close>, so the
  specification's span is 3, but Go's division truncates \<open>-5 / 10\<close> to 0 and \<open>span\<close>
  returns 0.
\<close>

theorem span_floor_counterexample:
  "NewRollingWindow 3 10 [] 100 = Inr regress_rw \<and>
   span_rw regress_rw 95 = Inr 0 \<and> span_spec regress_rw 95 = 3"
  by (simp add: NewRollingWindow_def newWindow_def new_Bucket_def regress_rw_def span_rw_def
      go_div_def go_quo_def timex_Since_def span_spec_def numeral_3_eq_3)

text \<open>
  C1, amended: for a non-zero interval, \<open>span\<close> returns \<open>rawSpan\<close> if
  \<open>0 \<le> rawSpan < size\<close> and \<open>size\<close> otherwise, where \<open>rawSpan\<close> is
  \<open>elapsed / interval\<close> truncated towards zero. For a positive interval this is the floor
  whenever the clock has not moved backward, and it is \<open>size\<close> whenever the clock has
  moved backward by one interval or more.
\<close>

theorem span_truncates:
  "interval rw \<noteq> 0 \<Longrightarrow>
   span_rw rw now =
     Inr (let rawSpan = go_quo (now - lastTime rw) (interval rw)
          in if 0 \<le> rawSpan \<and> rawSpan < size_rw rw then rawSpan else size_rw rw) \<and>
   (0 < interval rw \<and> lastTime rw \<le> now \<longrightarrow> span_rw rw now = Inr (span_spec rw now)) \<and>
   (0 < interval rw \<and> now - lastTime rw \<le> - interval rw \<longrightarrow> span_rw rw now = Inr (size_rw rw))"
proof (intro conjI impI)
  assume nz: "interval rw \<noteq> 0"
  show "span_rw rw now =
     Inr (let rawSpan = go_quo (now - lastTime rw) (interval rw)
          in if 0 \<le> rawSpan \<and> rawSpan < size_rw rw then rawSpan else size_rw rw)"
    using nz by (rule span_rw_eq)
next
  assume nz: "interval rw \<noteq> 0" and h: "0 < interval rw \<and> lastTime rw \<le> now"
  then have "go_quo (now - lastTime rw) (interval rw) = (now - lastTime rw) div interval rw"
    by (simp add: go_quo_nonneg)
  then show "span_rw rw now = Inr (span_spec rw now)"
    using nz by (simp add: span_rw_eq span_spec_def Let_def)
next
  assume nz: "interval rw \<noteq> 0" and h: "0 < interval rw \<and> now - lastTime rw \<le> - interval rw"
  then have "interval rw \<le> \<bar>now - lastTime rw\<bar>" by simp
  then have "interval rw div interval rw \<le> \<bar>now - lastTime rw\<bar> div interval rw"
    using h by (intro zdiv_mono1) simp_all
  then have "1 \<le> \<bar>now - lastTime rw\<bar> div interval rw"
    using h by simp
  moreover have "go_quo (now - lastTime rw) (interval rw) = - (\<bar>now - lastTime rw\<bar> div interval rw)"
    using h by (simp add: go_quo_def sgn_if)
  ultimately have "go_quo (now - lastTime rw) (interval rw) < 0" by simp
  then show "span_rw rw now = Inr (size_rw rw)"
    using nz by (simp add: span_rw_eq Let_def)
qed

theorem span_truncates_witness:
  "interval regress_rw \<noteq> 0 \<and> span_rw regress_rw 95 = Inr 0 \<and> span_rw regress_rw 125 = Inr 2 \<and>
   span_spec regress_rw 125 = 2 \<and> span_rw regress_rw 75 = Inr 3"
proof -
  have nz: "interval regress_rw \<noteq> 0" by (simp add: regress_rw_def)
  show ?thesis
    using nz span_truncates[OF nz, of 95] span_truncates[OF nz, of 125]
      span_truncates[OF nz, of 75]
    by (simp add: regress_rw_def go_quo_def span_spec_def)
qed

subsection \<open>C8: Reduce leaves the window as it is\<close>

text \<open>
  C8: when the visitor hands every bucket back as it received it, a \<open>Reduce\<close> that
  returns leaves the whole window unchanged: size, ring, interval, cursor, flag and
  \<open>lastTime\<close>, and with the ring every sum and every count.
\<close>

theorem Reduce_frame:
  assumes "\<forall>b t. fst (fn b t) = b" and "Reduce rw now fn s = Inr (rw', s')"
  shows "rw' = rw"
proof -
  from assms(2) obtain sp where sp: "span_rw rw now = Inr sp"
    by (cases "span_rw rw now") (simp_all add: Reduce_def)
  show ?thesis
  proof (cases "0 < validCount rw sp")
    case False
    with assms(2) sp show ?thesis by (simp add: Reduce_def validCount_def[symmetric])
  next
    case True
    with assms(2) sp obtain st w1 where
      r: "window_reduce (win rw) st (validCount rw sp) fn s = Inr (w1, s')" and rw': "rw' = rw\<lparr>win := w1\<rparr>"
      by (auto simp: Reduce_def validCount_def[symmetric] split: sum.splits)
    have "w1 = win rw"
      using window_reduce_from_readonly[of fn 0 "win rw" st "validCount rw sp" s w1 s'] assms(1) r
      by (simp add: window_reduce_def)
    with rw' show ?thesis by simp
  qed
qed

theorem Reduce_frame_witness:
  "(\<forall>b t. fst (tally_visitor b t) = (b :: real Bucket)) \<and>
   Reduce (scenario_A False) 0 tally_visitor (0, 0) = Inr (scenario_A False, (1, 1))"
proof -
  have ro: "\<forall>b t. fst (tally_visitor b t) = (b :: real Bucket)" by (simp add: tally_visitor_def)
  have wf: "wf_rw (scenario_A False)" by (simp add: wf_rw_def wf_window_def scenario_A_def)
  have sp: "span_rw (scenario_A False) 0 = Inr 0"
    by (simp add: span_rw_def go_div_def go_quo_def timex_Since_def scenario_A_def ms10_def)
  have "valid_slots (scenario_A False) 0 = [1, 2, 0]"
    by (simp add: valid_slots_def validCount_def ring_slots_def scenario_A_def upt_rec numeral_3_eq_3)
  then have "Reduce (scenario_A False) 0 tally_visitor (0, 0) =
        Inr (visit_valid tally_visitor [1, 2, 0] (scenario_A False) (0, 0))"
    using Reduce_slots[OF wf sp, of tally_visitor "(0, 0)"] by simp
  then obtain rw' t where r: "Reduce (scenario_A False) 0 tally_visitor (0, 0) = Inr (rw', t)"
    and t: "t = snd (visit_valid tally_visitor [1, 2, 0] (scenario_A False) (0, 0))"
    by (cases "visit_valid tally_visitor [1, 2, 0] (scenario_A False) (0, 0)") auto
  have "rw' = scenario_A False" using Reduce_frame[OF ro r] .
  moreover have "t = (1, 1)"
    unfolding t
    by (simp add: visit_valid_def visit_slots_def visit_slot_def tally_visitor_def scenario_A_def)
  ultimately show ?thesis using ro r by simp
qed

subsection \<open>C4 and C5: the scenarios\<close>

text \<open>The definitions that a run of the scenarios unfolds.\<close>

lemmas scenario_defs =
  scenario_new_def scenario_A_def scenario_B_def ms10_def

lemmas run_defs =
  NewRollingWindow_def newWindow_def new_Bucket_def IgnoreCurrentBucket_def
  Add_def updateOffset_def span_rw_def timex_Since_def go_div_def go_mod_def go_quo_def go_rem_def
  window_add_def window_resetBucket_def with_bucket_def Bucket_add_def Bucket_reset_def
  Reduce_def window_reduce_def visit_bucket_def
  reset_expired_from.simps window_reduce_from.simps
  count_visitor_def collect_visitor_def tally_visitor_def numeral_3_eq_3

text \<open>
  C4 (scenario B): with 3 buckets of 10 ms, after \<open>Add(1.0)\<close> at time 0 and
  \<open>Add(2.0)\<close> at 10 ms, a \<open>Reduce\<close> at 10 ms without \<open>ignoreCurrent\<close> calls the
  visitor 3 times; the buckets it sees are the empty one, the one written at time 0 (sum
  1, count 1) and the current one (sum 2, count 1); their totals are sum 3 and count 2.
\<close>

theorem scenario_B_reduce:
  "NewRollingWindow 3 ms10 [] 0 = Inr (scenario_new False) \<and>
   Add (scenario_new False) 0 0 1 = Inr (scenario_A False) \<and>
   Add (scenario_A False) ms10 ms10 2 = Inr scenario_B \<and>
   Reduce scenario_B ms10 count_visitor 0 = Inr (scenario_B, 3) \<and>
   Reduce scenario_B ms10 collect_visitor [] =
     Inr (scenario_B, [\<lparr>Sum = 0, Count = 0\<rparr>, \<lparr>Sum = 1, Count = 1\<rparr>, \<lparr>Sum = 2, Count = 1\<rparr>]) \<and>
   Reduce scenario_B ms10 tally_visitor (0, 0) = Inr (scenario_B, (3, 2))"
proof (intro conjI)
  show "NewRollingWindow 3 ms10 [] 0 = Inr (scenario_new False)"
    by (simp add: run_defs scenario_defs)
  show "Add (scenario_new False) 0 0 1 = Inr (scenario_A False)"
    by (simp add: run_defs scenario_defs)
  show "Add (scenario_A False) ms10 ms10 2 = Inr scenario_B"
    by (simp add: run_defs scenario_defs)
  show "Reduce scenario_B ms10 count_visitor 0 = Inr (scenario_B, 3)"
    by (simp add: run_defs scenario_defs)
  show "Reduce scenario_B ms10 collect_visitor [] =
     Inr (scenario_B, [\<lparr>Sum = 0, Count = 0\<rparr>, \<lparr>Sum = 1, Count = 1\<rparr>, \<lparr>Sum = 2, Count = 1\<rparr>])"
    by (simp add: run_defs scenario_defs)
  show "Reduce scenario_B ms10 tally_visitor (0, 0) = Inr (scenario_B, (3, 2))"
    by (simp add: run_defs scenario_defs)
qed

text \<open>
  C5 (scenario A): with 3 buckets of 10 ms, after one \<open>Add(1.0)\<close> at time 0, a
  \<open>Reduce\<close> at time 0 calls the visitor 3 times and the totals are sum 1 and count 1;
  on a window made with \<open>IgnoreCurrentBucket\<close> it calls the visitor twice, on two
  empty buckets, and the totals are sum 0 and count 0.
\<close>

theorem scenario_A_reduce:
  "NewRollingWindow 3 ms10 [] 0 = Inr (scenario_new False) \<and>
   Add (scenario_new False) 0 0 1 = Inr (scenario_A False) \<and>
   Reduce (scenario_A False) 0 count_visitor 0 = Inr (scenario_A False, 3) \<and>
   Reduce (scenario_A False) 0 tally_visitor (0, 0) = Inr (scenario_A False, (1, 1)) \<and>
   NewRollingWindow 3 ms10 [IgnoreCurrentBucket] 0 = Inr (scenario_new True) \<and>
   Add (scenario_new True) 0 0 1 = Inr (scenario_A True) \<and>
   Reduce (scenario_A True) 0 count_visitor 0 = Inr (scenario_A True, 2) \<and>
   Reduce (scenario_A True) 0 tally_visitor (0, 0) = Inr (scenario_A True, (0, 0)) \<and>
   Reduce (scenario_A True) 0 collect_visitor [] =
     Inr (scenario_A True, [\<lparr>Sum = 0, Count = 0\<rparr>, \<lparr>Sum = 0, Count = 0\<rparr>])"
proof (intro conjI)
  show "NewRollingWindow 3 ms10 [] 0 = Inr (scenario_new False)"
    by (simp add: run_defs scenario_defs)
  show "Add (scenario_new False) 0 0 1 = Inr (scenario_A False)"
    by (simp add: run_defs scenario_defs)
  show "Reduce (scenario_A False) 0 count_visitor 0 = Inr (scenario_A False, 3)"
    by (simp add: run_defs scenario_defs)
  show "Reduce (scenario_A False) 0 tally_visitor (0, 0) = Inr (scenario_A False, (1, 1))"
    by (simp add: run_defs scenario_defs)
  show "NewRollingWindow 3 ms10 [IgnoreCurrentBucket] 0 = Inr (scenario_new True)"
    by (simp add: run_defs scenario_defs)
  show "Add (scenario_new True) 0 0 1 = Inr (scenario_A True)"
    by (simp add: run_defs scenario_defs)
  show "Reduce (scenario_A True) 0 count_visitor 0 = Inr (scenario_A True, 2)"
    by (simp add: run_defs scenario_defs)
  show "Reduce (scenario_A True) 0 tally_visitor (0, 0) = Inr (scenario_A True, (0, 0))"
    by (simp add: run_defs scenario_defs)
  show "Reduce (scenario_A True) 0 collect_visitor [] =
     Inr (scenario_A True, [\<lparr>Sum = 0, Count = 0\<rparr>, \<lparr>Sum = 0, Count = 0\<rparr>])"
    by (simp add: run_defs scenario_defs)
qed

subsection \<open>C9: the constructor\<close>

text \<open>
  C9: with options that are all \<open>IgnoreCurrentBucket\<close> (the only option the package
  offers), the constructor panics exactly when \<open>size < 1\<close>, with the panic of its size
  check; for every \<open>size \<ge> 1\<close> it returns a window whose ring holds \<open>size\<close> empty
  buckets, with the cursor at 0 and \<open>lastTime\<close> at the clock's reading.
\<close>

theorem NewRollingWindow_size:
  assumes "set opts \<subseteq> {IgnoreCurrentBucket}"
  shows "((\<exists>e. NewRollingWindow size' iv opts t0 = (Inl e :: panic + 'a::zero RollingWindow))
            \<longleftrightarrow> size' < 1) \<and>
         (size' < 1 \<longrightarrow>
            NewRollingWindow size' iv opts t0 =
              (Inl SizeMustBeGreaterThanZero :: panic + 'a RollingWindow)) \<and>
         (1 \<le> size' \<longrightarrow>
            (\<exists>rw :: 'a RollingWindow. NewRollingWindow size' iv opts t0 = Inr rw \<and>
               size_rw rw = size' \<and> size_w (win rw) = size' \<and>
               int (length (buckets (win rw))) = size' \<and>
               buckets (win rw) = replicate (nat size') \<lparr>Sum = 0, Count = 0\<rparr> \<and>
               interval rw = iv \<and> offset rw = 0 \<and> lastTime rw = t0 \<and>
               ignoreCurrent rw = (opts \<noteq> [])))"
proof (cases "1 \<le> size'")
  case True
  from NewRollingWindow_eq[OF assms True, of iv t0] True
  show ?thesis by (simp add: new_Bucket_def)
next
  case False
  then show ?thesis by (simp add: NewRollingWindow_def)
qed

theorem NewRollingWindow_size_witness:
  "set [IgnoreCurrentBucket :: real RollingWindowOption] \<subseteq> {IgnoreCurrentBucket} \<and>
   NewRollingWindow 3 ms10 [IgnoreCurrentBucket] 0 = Inr (scenario_new True) \<and>
   NewRollingWindow 0 ms10 [IgnoreCurrentBucket] 0 =
     (Inl SizeMustBeGreaterThanZero :: panic + real RollingWindow)"
proof -
  have h: "set [IgnoreCurrentBucket :: real RollingWindowOption] \<subseteq> {IgnoreCurrentBucket}"
    by simp
  have "scenario_new True =
        \<lparr>size_rw = 3, win = \<lparr>buckets = replicate (nat 3) \<lparr>Sum = 0, Count = 0\<rparr>, size_w = 3\<rparr>,
         interval = ms10, offset = 0, ignoreCurrent = True, lastTime = 0\<rparr>"
    by (simp add: scenario_new_def numeral_3_eq_3)
  moreover obtain rw :: "real RollingWindow" where
    "NewRollingWindow 3 ms10 [IgnoreCurrentBucket] 0 = Inr rw" "size_rw rw = 3"
    "size_w (win rw) = 3" "buckets (win rw) = replicate (nat 3) \<lparr>Sum = 0, Count = 0\<rparr>"
    "interval rw = ms10" "offset rw = 0" "lastTime rw = 0" "ignoreCurrent rw"
    using NewRollingWindow_size[OF h, of 3 ms10 0] by auto
  ultimately have "NewRollingWindow 3 ms10 [IgnoreCurrentBucket] 0 = Inr (scenario_new True)"
    by simp
  moreover have "NewRollingWindow 0 ms10 [IgnoreCurrentBucket] 0 =
     (Inl SizeMustBeGreaterThanZero :: panic + real RollingWindow)"
    using NewRollingWindow_size[OF h, of 0 ms10 0] by simp
  ultimately show ?thesis using h by simp
qed

subsection \<open>C10: an interval of zero\<close>

text \<open>
  C10: the constructor does not look at the interval. For every \<open>size \<ge> 1\<close> it returns
  a window for the interval 0, and on that window \<open>span\<close> divides by zero, so that every
  \<open>Add\<close> and every \<open>Reduce\<close> panics, and with them every non-empty run of calls (a
  call that panics leaves the window as it was).
\<close>

theorem zero_interval_panics:
  assumes "1 \<le> size'" and "set opts \<subseteq> {IgnoreCurrentBucket}"
  shows "\<exists>rw :: 'a::{zero,plus} RollingWindow.
           NewRollingWindow size' 0 opts t0 = Inr rw \<and> interval rw = 0 \<and>
           span_rw rw now = Inl IntegerDivideByZero \<and>
           Add rw now1 now2 v = Inl IntegerDivideByZero \<and>
           Reduce rw now fn s = Inl IntegerDivideByZero \<and>
           (cs \<noteq> [] \<longrightarrow> run_calls (rw, s) cs = Inl IntegerDivideByZero)"
proof -
  define rw :: "'a RollingWindow" where
    "rw = \<lparr>size_rw = size',
           win = \<lparr>buckets = replicate (nat size') new_Bucket, size_w = size'\<rparr>,
           interval = 0, offset = 0, ignoreCurrent = (opts \<noteq> []), lastTime = t0\<rparr>"
  have new: "NewRollingWindow size' 0 opts t0 = Inr rw"
    unfolding rw_def using assms by (intro NewRollingWindow_eq) simp_all
  have iv: "interval rw = 0" by (simp add: rw_def)
  have sp: "\<And>t. span_rw rw t = Inl IntegerDivideByZero"
    using iv by (rule span_rw_zero_interval)
  have a: "\<And>t1 t2 x. Add rw t1 t2 x = Inl IntegerDivideByZero"
    by (simp add: Add_def updateOffset_def sp)
  have r: "\<And>t f x. Reduce rw t f x = Inl IntegerDivideByZero"
    by (simp add: Reduce_def sp)
  have calls: "run_calls (rw, s) cs = Inl IntegerDivideByZero" if "cs \<noteq> []"
  proof -
    from that obtain c cs' where cs: "cs = c # cs'" by (cases cs) auto
    have "run_call (rw, s) c = Inl IntegerDivideByZero"
      by (cases c) (simp_all add: a r)
    then show ?thesis by (simp add: cs)
  qed
  show ?thesis
  proof (intro exI[of _ rw] conjI impI)
    show "NewRollingWindow size' 0 opts t0 = Inr rw" by (rule new)
    show "interval rw = 0" by (rule iv)
    show "span_rw rw now = Inl IntegerDivideByZero" by (rule sp)
    show "Add rw now1 now2 v = Inl IntegerDivideByZero" by (rule a)
    show "Reduce rw now fn s = Inl IntegerDivideByZero" by (rule r)
    show "run_calls (rw, s) cs = Inl IntegerDivideByZero" if "cs \<noteq> []"
      using that by (rule calls)
  qed
qed

theorem zero_interval_panics_witness:
  "(1::int) \<le> 3 \<and> set ([] :: real RollingWindowOption list) \<subseteq> {IgnoreCurrentBucket} \<and>
   NewRollingWindow 3 0 [] 0 = Inr ((scenario_new False)\<lparr>interval := 0\<rparr>) \<and>
   Add ((scenario_new False)\<lparr>interval := 0\<rparr>) 0 0 1 = Inl IntegerDivideByZero \<and>
   Reduce ((scenario_new False)\<lparr>interval := 0\<rparr>) 0 count_visitor 0 = Inl IntegerDivideByZero \<and>
   run_calls ((scenario_new False)\<lparr>interval := 0\<rparr>, 0) [CallReduce 0 count_visitor] =
     Inl IntegerDivideByZero"
proof -
  have h1: "(1::int) \<le> 3" by simp
  have h2: "set ([] :: real RollingWindowOption list) \<subseteq> {IgnoreCurrentBucket}" by simp
  have new: "NewRollingWindow 3 0 [] 0 = Inr ((scenario_new False)\<lparr>interval := 0\<rparr>)"
    by (simp add: NewRollingWindow_def newWindow_def new_Bucket_def scenario_new_def
        numeral_3_eq_3)
  show ?thesis
    using h1 h2 new
      zero_interval_panics[OF h1 h2, of 0 0 0 0 "1::real" count_visitor 0
        "[CallReduce 0 count_visitor]"]
    by simp
qed

subsection \<open>Windows that a caller can reach\<close>

text \<open>
  The claims about every call are stated for the windows that the constructor returns
  (with options that are all \<open>IgnoreCurrentBucket\<close>) and that any run of calls, with any
  clock readings and any visitors, leads to. Such a window is well formed, keeps its size
  and interval, and its \<open>lastTime\<close> differs from the constructor's reading by a multiple
  of the interval.
\<close>

lemma reachable_inv:
  assumes opts: "set opts \<subseteq> {IgnoreCurrentBucket}"
    and new: "NewRollingWindow size' iv opts t0 = Inr rw0"
    and run: "run_calls (rw0, s0) cs = Inr (rw, s)"
  shows "wf_rw rw \<and> size_rw rw = size' \<and> interval rw = iv \<and> iv dvd (lastTime rw - t0)"
proof -
  note n = NewRollingWindow_wf[OF opts new]
  then have wf0: "wf_rw rw0" by simp
  from run_calls_inv[OF wf0 run] n show ?thesis by simp
qed

subsection \<open>C2: the buckets that Reduce visits\<close>

text \<open>
  C2: for a \<open>Reduce\<close> whose span is \<open>sp\<close>, the number of buckets visited is
  \<open>size - 1\<close> if \<open>sp = 0\<close> and \<open>ignoreCurrent\<close> is set, and \<open>size - sp\<close> otherwise.
  If that number is positive, \<open>Reduce\<close> does what applying the visitor once to each of
  that many consecutive slots of the ring does, from slot \<open>(offset + sp + 1) mod size\<close>
  on and in ring order; the slots are distinct and inside the ring, and a visitor that
  counts its calls ends with that number. If it is not positive, the visitor is not
  called. No field of the window other than the buckets handed to the visitor changes.
\<close>

theorem Reduce_visits:
  assumes opts: "set opts \<subseteq> {IgnoreCurrentBucket}"
    and new: "NewRollingWindow size' iv opts t0 = Inr rw0"
    and run: "run_calls (rw0, s0) cs = Inr (rw, s)"
    and sp: "span_rw rw now = Inr sp"
  shows "validCount rw sp =
           (if sp = 0 \<and> ignoreCurrent rw then size_rw rw - 1 else size_rw rw - sp) \<and>
         valid_slots rw sp =
           map (\<lambda>i. nat (((offset rw + sp + 1) mod size_rw rw + int i) mod size_rw rw))
             [0..<nat (validCount rw sp)] \<and>
         distinct (valid_slots rw sp) \<and>
         (\<forall>k \<in> set (valid_slots rw sp). k < length (buckets (win rw))) \<and>
         Reduce rw now fn u = Inr (visit_valid fn (valid_slots rw sp) rw u) \<and>
         Reduce rw now count_visitor 0 = Inr (rw, nat (validCount rw sp)) \<and>
         (validCount rw sp \<le> 0 \<longrightarrow> Reduce rw now fn u = Inr (rw, u))"
proof -
  have wf: "wf_rw rw" using reachable_inv[OF opts new run] by simp
  then have sz: "0 < size_rw rw" and len: "int (length (buckets (win rw))) = size_rw rw"
    by (simp_all add: wf_rw_def wf_window_def)
  have sp0: "0 \<le> sp" using span_rw_range[OF sp] sz by simp
  have vc: "validCount rw sp \<le> size_rw rw" using sp0 sz by (simp add: validCount_def)
  have d: "distinct (valid_slots rw sp)"
    unfolding valid_slots_def using vc sz by (intro distinct_ring_slots) simp
  have b: "\<forall>k \<in> set (valid_slots rw sp). k < length (buckets (win rw))"
  proof
    fix k assume "k \<in> set (valid_slots rw sp)"
    then obtain i where "k = nat (((offset rw + sp + 1) mod size_rw rw + int i) mod size_rw rw)"
      by (auto simp: valid_slots_def ring_slots_def)
    moreover have "((offset rw + sp + 1) mod size_rw rw + int i) mod size_rw rw < size_rw rw"
      "0 \<le> ((offset rw + sp + 1) mod size_rw rw + int i) mod size_rw rw"
      using sz by simp_all
    ultimately have "int k < int (length (buckets (win rw)))" using len by simp
    then show "k < length (buckets (win rw))" by simp
  qed
  have r: "\<And>f x. Reduce rw now f x = Inr (visit_valid f (valid_slots rw sp) rw x)"
    using Reduce_slots[OF wf sp] .
  have c: "Reduce rw now count_visitor 0 = Inr (rw, nat (validCount rw sp))"
    unfolding r by (simp add: visit_valid_def visit_slots_count valid_slots_def length_ring_slots)
  have e: "Reduce rw now fn u = Inr (rw, u)" if "validCount rw sp \<le> 0"
    unfolding r using that
    by (simp add: visit_valid_def valid_slots_def ring_slots_def visit_slots_Nil)
  show ?thesis
    using d b r[of fn u] c e
    by (simp add: validCount_def[symmetric] valid_slots_def ring_slots_def)
qed

theorem Reduce_visits_witness:
  "set ([] :: real RollingWindowOption list) \<subseteq> {IgnoreCurrentBucket} \<and>
   NewRollingWindow 3 ms10 [] 0 = Inr (scenario_new False) \<and>
   run_calls (scenario_new False, 0::nat) [CallAdd 0 0 1, CallAdd ms10 ms10 2] =
     Inr (scenario_B, 0) \<and>
   span_rw scenario_B ms10 = Inr 0 \<and>
   valid_slots scenario_B 0 = [2, 0, 1] \<and>
   Reduce scenario_B ms10 count_visitor 0 = Inr (scenario_B, 3) \<and>
   Reduce scenario_B ms10 collect_visitor [] =
     Inr (visit_valid collect_visitor [2, 0, 1] scenario_B [])"
proof -
  have h1: "set ([] :: real RollingWindowOption list) \<subseteq> {IgnoreCurrentBucket}" by simp
  have h2: "NewRollingWindow 3 ms10 [] 0 = Inr (scenario_new False)"
    by (simp add: run_defs scenario_defs)
  have h3: "run_calls (scenario_new False, 0::nat) [CallAdd 0 0 1, CallAdd ms10 ms10 2] =
     Inr (scenario_B, 0)"
    by (simp add: run_defs scenario_defs)
  have h4: "span_rw scenario_B ms10 = Inr 0"
    by (simp add: run_defs scenario_defs)
  have v: "valid_slots scenario_B 0 = [2, 0, 1]"
    by (simp add: valid_slots_def validCount_def ring_slots_def scenario_defs upt_rec
        numeral_3_eq_3)
  have n: "nat (validCount scenario_B 0) = 3"
    by (simp add: validCount_def scenario_defs)
  note t = Reduce_visits[OF h1 h2 h3 h4, of collect_visitor "[]"]
  have r1: "Reduce scenario_B ms10 collect_visitor [] =
     Inr (visit_valid collect_visitor (valid_slots scenario_B 0) scenario_B [])"
    using t by simp
  have r2: "Reduce scenario_B ms10 count_visitor 0 = Inr (scenario_B, nat (validCount scenario_B 0))"
    using t by simp
  show ?thesis
    using h1 h2 h3 h4 v r1 r2 unfolding n by (simp only: simp_thms)
qed

subsection \<open>Add when the cursor advances\<close>

lemma Reduce_count:
  assumes "wf_rw rw" "span_rw rw now = Inr sp"
  shows "Reduce rw now count_visitor 0 = Inr (rw, nat (validCount rw sp))"
  using Reduce_slots[OF assms, of count_visitor 0]
  by (simp add: visit_valid_def visit_slots_count valid_slots_def length_ring_slots)

lemma Add_advance:
  assumes wf: "wf_rw rw" and sp: "span_rw rw now1 = Inr sp" and pos: "0 < sp"
  shows "\<exists>w'. Add rw now1 now2 v =
            Inr (rw\<lparr>win := w'\<lparr>buckets := (buckets w')[nat ((offset rw + sp) mod size_rw rw) :=
                       Bucket_add (buckets w' ! nat ((offset rw + sp) mod size_rw rw)) v]\<rparr>,
                    offset := (offset rw + sp) mod size_rw rw,
                    lastTime := now2 - go_rem (now2 - lastTime rw) (interval rw)\<rparr>) \<and>
          updateOffset rw now1 now2 =
            Inr (rw\<lparr>win := w', offset := (offset rw + sp) mod size_rw rw,
                    lastTime := now2 - go_rem (now2 - lastTime rw) (interval rw)\<rparr>) \<and>
          wf_window w' \<and> size_w w' = size_rw rw \<and>
          (\<forall>k<length (buckets (win rw)). buckets w' ! k =
             (if k \<in> reset_slots 0 (offset rw) sp (size_rw rw) then new_Bucket
              else buckets (win rw) ! k))"
proof -
  from updateOffset_advance[OF wf sp pos, of now2] obtain w' where
    u: "updateOffset rw now1 now2 =
            Inr (rw\<lparr>win := w', offset := (offset rw + sp) mod size_rw rw,
                    lastTime := now2 - go_rem (now2 - lastTime rw) (interval rw)\<rparr>)"
    and w': "wf_window w'" "size_w w' = size_rw rw"
      "\<forall>k<length (buckets (win rw)). buckets w' ! k =
             (if k \<in> reset_slots 0 (offset rw) sp (size_rw rw) then new_Bucket
              else buckets (win rw) ! k)"
    by blast
  have sz: "0 < size_rw rw" using wf_rw_size[OF wf] by simp
  have "window_add w' ((offset rw + sp) mod size_rw rw) v =
      Inr (w'\<lparr>buckets := (buckets w')[nat ((offset rw + sp) mod size_rw rw) :=
             Bucket_add (buckets w' ! nat ((offset rw + sp) mod size_rw rw)) v]\<rparr>)"
    using w' sz by (intro window_add_wf) simp_all
  then have "Add rw now1 now2 v =
            Inr (rw\<lparr>win := w'\<lparr>buckets := (buckets w')[nat ((offset rw + sp) mod size_rw rw) :=
                       Bucket_add (buckets w' ! nat ((offset rw + sp) mod size_rw rw)) v]\<rparr>,
                    offset := (offset rw + sp) mod size_rw rw,
                    lastTime := now2 - go_rem (now2 - lastTime rw) (interval rw)\<rparr>)"
    using u by (simp add: Add_def)
  with u w' show ?thesis by blast
qed

lemma reset_all:
  assumes w: "wf_window w'" "size_w w' = size'"
    and len: "int (length bs) = size'"
    and r: "\<forall>k<length bs. buckets w' ! k =
             (if k \<in> reset_slots 0 offset' size' size' then new_Bucket else bs ! k)"
  shows "buckets w' = replicate (nat size') new_Bucket"
proof (rule nth_equalityI)
  have "int (length (buckets w')) = size'" using w by (simp add: wf_window_def)
  then have l: "length (buckets w') = nat size'" by linarith
  then show "length (buckets w') = length (replicate (nat size') new_Bucket)" by simp
  fix k assume k: "k < length (buckets w')"
  have sz: "0 < size'" using w by (simp add: wf_window_def)
  have kl: "k < length bs" using k l len by linarith
  have "k \<in> reset_slots 0 offset' size' size'"
    using k l by (intro reset_slots_full[OF sz]) simp
  with r kl have "buckets w' ! k = new_Bucket" by simp
  then show "buckets w' ! k = replicate (nat size') new_Bucket ! k" using k l by simp
qed

subsection \<open>C7: the cursor and the ring accesses of Add\<close>

text \<open>
  C7, as the specification states it: after any \<open>Add\<close>, also one for which the clock
  reports a value earlier than \<open>lastTime\<close>, where the span clamps to \<open>size\<close> and every
  bucket is reset, \<open>offset\<close> lies in \<open>[0, size)\<close> and every ring access stays in range.
  The clamp and the reset fail where the clock went back by less than one interval: on the
  window with \<open>lastTime = 110\<close>, \<open>interval = 10\<close>, \<open>size = 3\<close> and the cursor at
  slot 1, the reading 105 gives \<open>-5 / 10 = 0\<close> in Go, the span is 0 and not 3,
  \<open>updateOffset\<close> returns at once, and \<open>Add(5.0)\<close> adds to the current bucket: no
  bucket is reset.
\<close>

theorem small_regress_counterexample:
  "NewRollingWindow 3 10 [] 100 = Inr regress_rw \<and>
   run_calls (regress_rw, 0::nat) [CallAdd 100 100 1, CallAdd 110 110 2] = Inr (regress_B, 0) \<and>
   105 < lastTime regress_B \<and>
   size_rw regress_B = 3 \<and>
   span_rw regress_B 105 = Inr 0 \<and>
   Add regress_B 105 105 5 =
     Inr (regress_B\<lparr>win := \<lparr>buckets = [\<lparr>Sum = 1, Count = 1\<rparr>, \<lparr>Sum = 7, Count = 2\<rparr>,
                                        \<lparr>Sum = 0, Count = 0\<rparr>], size_w = 3\<rparr>\<rparr>)"
proof (intro conjI)
  show "NewRollingWindow 3 10 [] 100 = Inr regress_rw"
    by (simp add: run_defs regress_rw_def)
  show "run_calls (regress_rw, 0::nat) [CallAdd 100 100 1, CallAdd 110 110 2] =
          Inr (regress_B, 0)"
    by (simp add: run_defs regress_rw_def regress_B_def)
  show "105 < lastTime regress_B" by (simp add: regress_B_def)
  show "size_rw regress_B = 3" by (simp add: regress_B_def)
  show "span_rw regress_B 105 = Inr 0"
    by (simp add: run_defs regress_B_def)
  show "Add regress_B 105 105 5 =
     Inr (regress_B\<lparr>win := \<lparr>buckets = [\<lparr>Sum = 1, Count = 1\<rparr>, \<lparr>Sum = 7, Count = 2\<rparr>,
                                        \<lparr>Sum = 0, Count = 0\<rparr>], size_w = 3\<rparr>\<rparr>)"
    by (simp add: run_defs regress_B_def)
qed

text \<open>
  C7, amended: on every window that a caller can reach and for all clock readings, also
  readings earlier than \<open>lastTime\<close>, \<open>Add\<close> makes no ring access out of range (it never
  panics on an index); with a non-zero interval it returns, and afterwards \<open>offset\<close>
  lies in \<open>[0, size)\<close> and the ring still has \<open>size\<close> buckets. With a positive
  interval, when the clock went back by an interval or more, the span is \<open>size\<close>, every
  bucket is reset, and the value is written to the bucket at the cursor, which stays where
  it was; when the clock went back by less than one interval, the span is 0, nothing is
  reset, and the value is added to the bucket at the cursor.
\<close>

theorem Add_in_range:
  assumes opts: "set opts \<subseteq> {IgnoreCurrentBucket}"
    and new: "NewRollingWindow size' iv opts t0 = Inr rw0"
    and run: "run_calls (rw0, s0) cs = Inr (rw, s)"
  shows "Add rw now1 now2 v \<noteq> Inl IndexOutOfRange \<and>
         (iv \<noteq> 0 \<longrightarrow>
            (\<exists>rw'. Add rw now1 now2 v = Inr rw' \<and> 0 \<le> offset rw' \<and> offset rw' < size' \<and>
               size_rw rw' = size' \<and> size_w (win rw') = size' \<and>
               int (length (buckets (win rw'))) = size')) \<and>
         (0 < iv \<and> now1 - lastTime rw \<le> - iv \<longrightarrow>
            (\<exists>rw'. Add rw now1 now2 v = Inr rw' \<and> span_rw rw now1 = Inr size' \<and>
               offset rw' = offset rw \<and>
               buckets (win rw') =
                 (replicate (nat size') new_Bucket)[nat (offset rw) := Bucket_add new_Bucket v])) \<and>
         (0 < iv \<and> - iv < now1 - lastTime rw \<and> now1 - lastTime rw < 0 \<longrightarrow>
            span_rw rw now1 = Inr 0 \<and>
            Add rw now1 now2 v =
              Inr (rw\<lparr>win := (win rw)\<lparr>buckets := (buckets (win rw))[nat (offset rw) :=
                     Bucket_add (buckets (win rw) ! nat (offset rw)) v]\<rparr>\<rparr>))"
proof (intro conjI impI)
  note inv = reachable_inv[OF opts new run]
  then have wf: "wf_rw rw" and sz: "size_rw rw = size'" and iv: "interval rw = iv" by simp_all
  show "Add rw now1 now2 v \<noteq> Inl IndexOutOfRange"
  proof (cases "iv = 0")
    case True
    then have "span_rw rw now1 = Inl IntegerDivideByZero"
      using iv by (simp add: span_rw_zero_interval)
    then show ?thesis by (simp add: Add_def updateOffset_def)
  next
    case False
    then obtain sp where "span_rw rw now1 = Inr sp" using span_rw_eq[of rw now1] iv by auto
    from Add_inv[OF wf this, of now2 v] show ?thesis by auto
  qed
  show "\<exists>rw'. Add rw now1 now2 v = Inr rw' \<and> 0 \<le> offset rw' \<and> offset rw' < size' \<and>
               size_rw rw' = size' \<and> size_w (win rw') = size' \<and>
               int (length (buckets (win rw'))) = size'" if nz: "iv \<noteq> 0"
  proof -
    obtain sp where "span_rw rw now1 = Inr sp" using span_rw_eq[of rw now1] iv nz by auto
    from Add_inv[OF wf this, of now2 v] sz show ?thesis
      by (auto simp: wf_rw_def wf_window_def)
  qed
  show "\<exists>rw'. Add rw now1 now2 v = Inr rw' \<and> span_rw rw now1 = Inr size' \<and>
               offset rw' = offset rw \<and>
               buckets (win rw') =
                 (replicate (nat size') new_Bucket)[nat (offset rw) := Bucket_add new_Bucket v]"
    if h: "0 < iv \<and> now1 - lastTime rw \<le> - iv"
  proof -
    have pos: "0 < size'" using wf_rw_size[OF wf] sz by simp
    have "interval rw div interval rw \<le> \<bar>now1 - lastTime rw\<bar> div interval rw"
      using h iv by (intro zdiv_mono1) simp_all
    then have "1 \<le> \<bar>now1 - lastTime rw\<bar> div interval rw" using h iv by simp
    moreover have "go_quo (now1 - lastTime rw) (interval rw) =
                   - (\<bar>now1 - lastTime rw\<bar> div interval rw)"
      using h iv by (simp add: go_quo_def sgn_if)
    ultimately have "go_quo (now1 - lastTime rw) (interval rw) < 0" by simp
    then have sp: "span_rw rw now1 = Inr size'"
      using h iv sz by (simp add: span_rw_eq Let_def)
    from Add_advance[OF wf sp pos, of now2 v] obtain w' where
      a: "Add rw now1 now2 v =
            Inr (rw\<lparr>win := w'\<lparr>buckets := (buckets w')[nat ((offset rw + size') mod size_rw rw) :=
                       Bucket_add (buckets w' ! nat ((offset rw + size') mod size_rw rw)) v]\<rparr>,
                    offset := (offset rw + size') mod size_rw rw,
                    lastTime := now2 - go_rem (now2 - lastTime rw) (interval rw)\<rparr>)"
      and w': "wf_window w'" "size_w w' = size_rw rw"
        "\<forall>k<length (buckets (win rw)). buckets w' ! k =
             (if k \<in> reset_slots 0 (offset rw) size' (size_rw rw) then new_Bucket
              else buckets (win rw) ! k)"
      by blast
    have len: "int (length (buckets (win rw))) = size'"
      using wf sz by (simp add: wf_rw_def wf_window_def)
    have all: "buckets w' = replicate (nat size') new_Bucket"
      using reset_all[of w' size' "buckets (win rw)" "offset rw"] w' len sz by simp
    have off: "(offset rw + size') mod size_rw rw = offset rw"
      using wf sz by (simp add: wf_rw_def)
    have "nat (offset rw) < nat size'" using wf sz by (simp add: wf_rw_def)
    then have "replicate (nat size') (new_Bucket :: 'a Bucket) ! nat (offset rw) = new_Bucket"
      by simp
    with a sp show ?thesis by (simp add: off all)
  qed
  have small: "span_rw rw now1 = Inr 0 \<and>
      Add rw now1 now2 v =
        Inr (rw\<lparr>win := (win rw)\<lparr>buckets := (buckets (win rw))[nat (offset rw) :=
               Bucket_add (buckets (win rw) ! nat (offset rw)) v]\<rparr>\<rparr>)"
    if h: "0 < iv \<and> - iv < now1 - lastTime rw \<and> now1 - lastTime rw < 0"
  proof -
    have pos: "0 < size'" using wf_rw_size[OF wf] sz by simp
    have "\<bar>now1 - lastTime rw\<bar> < interval rw" using h iv by simp
    then have "\<bar>now1 - lastTime rw\<bar> div interval rw = 0" by simp
    moreover have "\<bar>interval rw\<bar> = interval rw" using h iv by simp
    ultimately have "go_quo (now1 - lastTime rw) (interval rw) = 0"
      by (simp add: go_quo_def)
    then have sp: "span_rw rw now1 = Inr 0"
      using h iv sz pos by (simp add: span_rw_eq Let_def)
    have u: "updateOffset rw now1 now2 = Inr rw"
      using updateOffset_stay[OF sp] by simp
    have a: "window_add (win rw) (offset rw) v =
        Inr ((win rw)\<lparr>buckets := (buckets (win rw))[nat (offset rw) :=
               Bucket_add (buckets (win rw) ! nat (offset rw)) v]\<rparr>)"
      using wf by (intro window_add_wf) (simp_all add: wf_rw_def)
    show ?thesis using sp u a by (simp add: Add_def)
  qed
  show "span_rw rw now1 = Inr 0"
    if "0 < iv \<and> - iv < now1 - lastTime rw \<and> now1 - lastTime rw < 0"
    using small[OF that] by simp
  show "Add rw now1 now2 v =
        Inr (rw\<lparr>win := (win rw)\<lparr>buckets := (buckets (win rw))[nat (offset rw) :=
               Bucket_add (buckets (win rw) ! nat (offset rw)) v]\<rparr>\<rparr>)"
    if "0 < iv \<and> - iv < now1 - lastTime rw \<and> now1 - lastTime rw < 0"
    using small[OF that] by simp
qed

theorem Add_in_range_witness:
  "set ([] :: real RollingWindowOption list) \<subseteq> {IgnoreCurrentBucket} \<and>
   NewRollingWindow 3 10 [] 100 = Inr regress_rw \<and>
   run_calls (regress_rw, 0::nat) [CallAdd 100 100 1, CallAdd 110 110 2] = Inr (regress_B, 0) \<and>
   (10::int) \<noteq> 0 \<and>
   ((0::int) < 10 \<and> 85 - lastTime regress_B \<le> - 10) \<and>
   span_rw regress_B 85 = Inr 3 \<and>
   Add regress_B 85 85 5 =
     Inr (regress_B\<lparr>win := \<lparr>buckets = [\<lparr>Sum = 0, Count = 0\<rparr>, \<lparr>Sum = 5, Count = 1\<rparr>,
                                        \<lparr>Sum = 0, Count = 0\<rparr>], size_w = 3\<rparr>,
                    lastTime := 90\<rparr>) \<and>
   ((0::int) < 10 \<and> - 10 < 105 - lastTime regress_B \<and> 105 - lastTime regress_B < 0) \<and>
   span_rw regress_B 105 = Inr 0 \<and>
   Add regress_B 105 105 5 =
     Inr (regress_B\<lparr>win := \<lparr>buckets = [\<lparr>Sum = 1, Count = 1\<rparr>, \<lparr>Sum = 7, Count = 2\<rparr>,
                                        \<lparr>Sum = 0, Count = 0\<rparr>], size_w = 3\<rparr>\<rparr>)"
proof -
  have h1: "set ([] :: real RollingWindowOption list) \<subseteq> {IgnoreCurrentBucket}" by simp
  have h2: "NewRollingWindow 3 10 [] 100 = Inr regress_rw"
    by (simp add: run_defs regress_rw_def)
  have h3: "run_calls (regress_rw, 0::nat) [CallAdd 100 100 1, CallAdd 110 110 2] =
              Inr (regress_B, 0)"
    by (simp add: run_defs regress_rw_def regress_B_def)
  have h4: "(10::int) \<noteq> 0" by simp
  have h5: "(0::int) < 10 \<and> 85 - lastTime regress_B \<le> - 10" by (simp add: regress_B_def)
  have h6: "(0::int) < 10 \<and> - 10 < 105 - lastTime regress_B \<and> 105 - lastTime regress_B < 0"
    by (simp add: regress_B_def)
  from Add_in_range[OF h1 h2 h3, of 85 85 5] h5
  obtain rw' where far: "Add regress_B 85 85 5 = Inr rw'" "span_rw regress_B 85 = Inr 3"
    "offset rw' = offset regress_B"
    "buckets (win rw') =
       (replicate (nat 3) new_Bucket)[nat (offset regress_B) := Bucket_add new_Bucket 5]"
    by blast
  have e: "Add regress_B 85 85 5 =
     Inr (regress_B\<lparr>win := \<lparr>buckets = [\<lparr>Sum = 0, Count = 0\<rparr>, \<lparr>Sum = 5, Count = 1\<rparr>,
                                        \<lparr>Sum = 0, Count = 0\<rparr>], size_w = 3\<rparr>,
                    lastTime := 90\<rparr>)"
    by (simp add: run_defs regress_B_def)
  from Add_in_range[OF h1 h2 h3, of 105 105 5] h6
  have near: "span_rw regress_B 105 = Inr 0"
    "Add regress_B 105 105 5 =
       Inr (regress_B\<lparr>win := (win regress_B)\<lparr>buckets := (buckets (win regress_B))
              [nat (offset regress_B) :=
                 Bucket_add (buckets (win regress_B) ! nat (offset regress_B)) 5]\<rparr>\<rparr>)"
    by blast+
  have n: "regress_B\<lparr>win := (win regress_B)\<lparr>buckets := (buckets (win regress_B))
              [nat (offset regress_B) :=
                 Bucket_add (buckets (win regress_B) ! nat (offset regress_B)) 5]\<rparr>\<rparr> =
           regress_B\<lparr>win := \<lparr>buckets = [\<lparr>Sum = 1, Count = 1\<rparr>, \<lparr>Sum = 7, Count = 2\<rparr>,
                                        \<lparr>Sum = 0, Count = 0\<rparr>], size_w = 3\<rparr>\<rparr>"
    by (simp add: regress_B_def Bucket_add_def)
  show ?thesis
    using h1 h2 h3 h4 h5 h6 far(2) e near(1) near(2)[unfolded n] by (simp only: simp_thms)
qed

subsection \<open>C3: the realignment of lastTime\<close>

text \<open>
  C3, as the specification states it: after any advance of the cursor the new
  \<open>lastTime\<close> is \<open>now - ((now - lastTime) mod interval)\<close>, is congruent to the
  constructor's reading modulo the interval, lies at or before \<open>now\<close>, and
  \<open>now - lastTime < interval\<close>. The third part fails when the clock went backward by more
  than an interval: with \<open>lastTime = 100\<close>, \<open>interval = 10\<close> and the reading 75 the
  span is 3, the cursor advances, and the new \<open>lastTime\<close> is \<open>75 - (-25 % 10) = 80\<close>,
  after the reading.
\<close>

theorem realign_regress_counterexample:
  "NewRollingWindow 3 10 [] 100 = Inr regress_rw \<and>
   span_rw regress_rw 75 = Inr 3 \<and>
   map_sum id lastTime (updateOffset regress_rw 75 75) = Inr 80 \<and>
   map_sum id lastTime (Add regress_rw 75 75 1) = Inr 80 \<and>
   \<not> (80::int) \<le> 75"
proof (intro conjI)
  show "NewRollingWindow 3 10 [] 100 = Inr regress_rw"
    by (simp add: run_defs regress_rw_def)
  show "span_rw regress_rw 75 = Inr 3"
    by (simp add: run_defs regress_rw_def)
  show "map_sum id lastTime (updateOffset regress_rw 75 75) = Inr 80"
    by (simp add: run_defs regress_rw_def)
  show "map_sum id lastTime (Add regress_rw 75 75 1) = Inr 80"
    by (simp add: run_defs regress_rw_def)
  show "\<not> (80::int) \<le> 75" by simp
qed

text \<open>
  C3, amended: after any advance of the cursor (a span above 0) on a window that a
  caller can reach, the new \<open>lastTime\<close> is \<open>now - ((now - lastTime) % interval)\<close> with
  the remainder of Go, and it differs from the constructor's reading by a multiple of the
  interval. When the interval is positive and the clock has not gone backward
  (\<open>lastTime \<le> now\<close>), the remainder is the mathematical \<open>mod\<close>, the new \<open>lastTime\<close>
  lies at or before \<open>now\<close>, and \<open>now - lastTime < interval\<close>. Here \<open>now\<close> is the
  reading that \<open>updateOffset\<close> takes for the realignment.
\<close>

theorem realign_lastTime:
  assumes opts: "set opts \<subseteq> {IgnoreCurrentBucket}"
    and new: "NewRollingWindow size' iv opts t0 = Inr rw0"
    and run: "run_calls (rw0, s0) cs = Inr (rw, s)"
    and sp: "span_rw rw now1 = Inr sp" and pos: "0 < sp"
  shows "\<exists>rw' rw''. updateOffset rw now1 now2 = Inr rw' \<and> Add rw now1 now2 v = Inr rw'' \<and>
           lastTime rw'' = lastTime rw' \<and>
           lastTime rw' = now2 - go_rem (now2 - lastTime rw) iv \<and>
           iv dvd (lastTime rw' - t0) \<and>
           (0 < iv \<and> lastTime rw \<le> now2 \<longrightarrow>
              lastTime rw' = now2 - (now2 - lastTime rw) mod iv \<and>
              lastTime rw' \<le> now2 \<and> now2 - lastTime rw' < iv)"
proof -
  note inv = reachable_inv[OF opts new run]
  then have wf: "wf_rw rw" and iv: "interval rw = iv" and d: "iv dvd (lastTime rw - t0)"
    by simp_all
  from Add_advance[OF wf sp pos, of now2 v] obtain rw' rw'' where
    u: "updateOffset rw now1 now2 = Inr rw'" and a: "Add rw now1 now2 v = Inr rw''"
    and l: "lastTime rw'' = now2 - go_rem (now2 - lastTime rw) iv"
      "lastTime rw' = now2 - go_rem (now2 - lastTime rw) iv"
    unfolding iv by (elim exE conjE) simp
  have e: "lastTime rw' - t0 = go_quo (now2 - lastTime rw) iv * iv + (lastTime rw - t0)"
    unfolding l by (simp add: go_rem_def)
  have "iv dvd go_quo (now2 - lastTime rw) iv * iv" by simp
  then have "iv dvd go_quo (now2 - lastTime rw) iv * iv + (lastTime rw - t0)"
    using d by (rule dvd_add)
  then have c: "iv dvd (lastTime rw' - t0)" unfolding e .
  have m: "lastTime rw' = now2 - (now2 - lastTime rw) mod iv \<and>
           lastTime rw' \<le> now2 \<and> now2 - lastTime rw' < iv"
    if h: "0 < iv \<and> lastTime rw \<le> now2"
  proof -
    have "go_rem (now2 - lastTime rw) iv = (now2 - lastTime rw) mod iv"
      using h by (simp add: go_rem_nonneg)
    moreover have "0 \<le> (now2 - lastTime rw) mod iv" "(now2 - lastTime rw) mod iv < iv"
      using h by simp_all
    ultimately show ?thesis unfolding l by simp
  qed
  show ?thesis
  proof (rule exI[of _ rw'], rule exI[of _ rw''], intro conjI impI)
    show "updateOffset rw now1 now2 = Inr rw'" by (rule u)
    show "Add rw now1 now2 v = Inr rw''" by (rule a)
    show "lastTime rw'' = lastTime rw'" using l by simp
    show "lastTime rw' = now2 - go_rem (now2 - lastTime rw) iv" by (rule l)
    show "iv dvd (lastTime rw' - t0)" by (rule c)
    show "lastTime rw' = now2 - (now2 - lastTime rw) mod iv" if "0 < iv \<and> lastTime rw \<le> now2"
      using m[OF that] by simp
    show "lastTime rw' \<le> now2" if "0 < iv \<and> lastTime rw \<le> now2"
      using m[OF that] by simp
    show "now2 - lastTime rw' < iv" if "0 < iv \<and> lastTime rw \<le> now2"
      using m[OF that] by simp
  qed
qed

theorem realign_lastTime_witness:
  "set ([] :: real RollingWindowOption list) \<subseteq> {IgnoreCurrentBucket} \<and>
   NewRollingWindow 3 ms10 [] 0 = Inr (scenario_new False) \<and>
   run_calls (scenario_new False, 0::nat) [CallAdd 0 0 1] = Inr (scenario_A False, 0) \<and>
   span_rw (scenario_A False) 25000000 = Inr 2 \<and> (0::int) < 2 \<and>
   (0 < ms10 \<and> lastTime (scenario_A False) \<le> 26000000) \<and>
   map_sum id lastTime (Add (scenario_A False) 25000000 26000000 2) = Inr 20000000"
proof -
  have h1: "set ([] :: real RollingWindowOption list) \<subseteq> {IgnoreCurrentBucket}" by simp
  have h2: "NewRollingWindow 3 ms10 [] 0 = Inr (scenario_new False)"
    by (simp add: run_defs scenario_defs)
  have h3: "run_calls (scenario_new False, 0::nat) [CallAdd 0 0 1] = Inr (scenario_A False, 0)"
    by (simp add: run_defs scenario_defs)
  have h4: "span_rw (scenario_A False) 25000000 = Inr 2"
    by (simp add: run_defs scenario_defs)
  have h5: "(0::int) < 2" by simp
  have h6: "0 < ms10 \<and> lastTime (scenario_A False) \<le> 26000000"
    by (simp add: scenario_defs)
  from realign_lastTime[OF h1 h2 h3 h4 h5, of 26000000 2] h6
  obtain rw'' where "Add (scenario_A False) 25000000 26000000 2 = Inr rw''"
    "lastTime rw'' = 26000000 - (26000000 - lastTime (scenario_A False)) mod ms10"
    by auto
  then have "map_sum id lastTime (Add (scenario_A False) 25000000 26000000 2) = Inr 20000000"
    by (simp add: scenario_defs)
  with h1 h2 h3 h4 h5 h6 show ?thesis by simp
qed

subsection \<open>C6: the number of buckets that Reduce visits\<close>

text \<open>
  C6, as the specification states it: a \<open>Reduce\<close> visits between 0 and \<open>size\<close>
  buckets, and \<open>size\<close> of them only when no bucket has ever become stale and
  \<open>ignoreCurrent\<close> is unset. The second part fails in scenario B: the second \<open>Add\<close>
  finds a span of 1 and resets the stale bucket, and the \<open>Reduce\<close> after it visits all
  3 buckets.
\<close>

theorem stale_then_full_counterexample:
  "NewRollingWindow 3 ms10 [] 0 = Inr (scenario_new False) \<and>
   run_calls (scenario_new False, 0::nat) [CallAdd 0 0 1, CallAdd ms10 ms10 2] =
     Inr (scenario_B, 0) \<and>
   ever_stale (scenario_new False, 0::nat) [CallAdd 0 0 1, CallAdd ms10 ms10 2] \<and>
   Reduce scenario_B ms10 count_visitor 0 = Inr (scenario_B, 3) \<and>
   size_rw scenario_B = 3"
proof (intro conjI)
  show "NewRollingWindow 3 ms10 [] 0 = Inr (scenario_new False)"
    by (simp add: run_defs scenario_defs)
  show "run_calls (scenario_new False, 0::nat) [CallAdd 0 0 1, CallAdd ms10 ms10 2] =
     Inr (scenario_B, 0)"
    by (simp add: run_defs scenario_defs)
  show "ever_stale (scenario_new False, 0::nat) [CallAdd 0 0 1, CallAdd ms10 ms10 2]"
    by (simp add: run_defs scenario_defs)
  show "Reduce scenario_B ms10 count_visitor 0 = Inr (scenario_B, 3)"
    by (simp add: run_defs scenario_defs)
  show "size_rw scenario_B = 3" by (simp add: scenario_defs)
qed

text \<open>
  C6, amended: on every window that a caller can reach, with a non-zero interval, a
  \<open>Reduce\<close> visits between 0 and \<open>size\<close> buckets, and \<open>size\<close> of them exactly when
  no bucket is stale at the time of the call (its span is 0) and \<open>ignoreCurrent\<close> is
  unset.
\<close>

theorem Reduce_count_bounds:
  assumes opts: "set opts \<subseteq> {IgnoreCurrentBucket}"
    and new: "NewRollingWindow size' iv opts t0 = Inr rw0"
    and run: "run_calls (rw0, s0) cs = Inr (rw, s)"
    and nz: "iv \<noteq> 0"
  shows "\<exists>sp n. span_rw rw now = Inr sp \<and> Reduce rw now count_visitor 0 = Inr (rw, n) \<and>
           0 \<le> int n \<and> int n \<le> size' \<and>
           (int n = size' \<longleftrightarrow> sp = 0 \<and> \<not> ignoreCurrent rw)"
proof -
  note inv = reachable_inv[OF opts new run]
  then have wf: "wf_rw rw" and sz: "size_rw rw = size'" and iv: "interval rw = iv" by simp_all
  obtain sp where sp: "span_rw rw now = Inr sp" using span_rw_eq[of rw now] iv nz by auto
  have pos: "1 \<le> size'" using wf_rw_size[OF wf] sz by simp
  have r: "0 \<le> sp" "sp \<le> size'" using span_rw_range[OF sp] pos sz by simp_all
  have c: "Reduce rw now count_visitor 0 = Inr (rw, nat (validCount rw sp))"
    using Reduce_count[OF wf sp] .
  have b: "int (nat (validCount rw sp)) \<le> size'"
    using r pos sz by (simp add: validCount_def)
  have e: "int (nat (validCount rw sp)) = size' \<longleftrightarrow> sp = 0 \<and> \<not> ignoreCurrent rw"
    using r pos sz by (auto simp: validCount_def)
  show ?thesis
    using sp c b e by (intro exI[of _ sp] exI[of _ "nat (validCount rw sp)"]) simp
qed

theorem Reduce_count_bounds_witness:
  "set ([] :: real RollingWindowOption list) \<subseteq> {IgnoreCurrentBucket} \<and>
   NewRollingWindow 3 ms10 [] 0 = Inr (scenario_new False) \<and>
   run_calls (scenario_new False, 0::nat) [CallAdd 0 0 1, CallAdd ms10 ms10 2] =
     Inr (scenario_B, 0) \<and>
   ms10 \<noteq> 0 \<and>
   Reduce scenario_B ms10 count_visitor 0 = Inr (scenario_B, 3) \<and>
   Reduce scenario_B 25000000 count_visitor 0 = Inr (scenario_B, 2)"
proof -
  have h1: "set ([] :: real RollingWindowOption list) \<subseteq> {IgnoreCurrentBucket}" by simp
  have h2: "NewRollingWindow 3 ms10 [] 0 = Inr (scenario_new False)"
    by (simp add: run_defs scenario_defs)
  have h3: "run_calls (scenario_new False, 0::nat) [CallAdd 0 0 1, CallAdd ms10 ms10 2] =
     Inr (scenario_B, 0)"
    by (simp add: run_defs scenario_defs)
  have h4: "ms10 \<noteq> 0" by (simp add: ms10_def)
  have s1: "span_rw scenario_B ms10 = Inr 0" by (simp add: run_defs scenario_defs)
  have ic: "\<not> ignoreCurrent scenario_B" by (simp add: scenario_defs)
  from Reduce_count_bounds[OF h1 h2 h3 h4, of ms10] s1 ic
  have "Reduce scenario_B ms10 count_visitor 0 = Inr (scenario_B, 3)" by auto
  moreover have "Reduce scenario_B 25000000 count_visitor 0 = Inr (scenario_B, 2)"
    by (simp add: run_defs scenario_defs)
  ultimately show ?thesis using h1 h2 h3 h4 by simp
qed

end
